theory Spec2Isabelle
  imports Main
begin

section \<open>Data model\<close>

text \<open>
  A marking entry is a Python int or \<open>float('inf')\<close>, the value the program uses for
  \<open>\<omega>\<close>. Python compares the two kinds of number exactly: \<open>inf\<close> is greater than every
  int. For \<open>inf - w\<close> and \<open>inf + w\<close> it first converts the int \<open>w\<close> to a float, and the
  result is \<open>inf\<close>; the conversion raises OverflowError for an int too large for a float.
\<close>

datatype mval = Fin int | Omega

text \<open>
  The exceptions the core can raise: \<open>list.index\<close> on a name that is not in the list
  (a ValueError), an index past the end of a list, a missing dictionary key, the
  ValueError that \<open>fire_transition\<close> raises itself for a transition that is not enabled,
  and the OverflowError of an int that does not fit a float.
\<close>

datatype error = NotInList | IndexError | KeyError | CannotBeFired | OverflowError

text \<open>
  A weight dictionary \<open>{place: weight}\<close> is kept as an association list in insertion
  order, which is the order in which Python iterates over it.
\<close>

type_synonym weights = "(string \<times> int) list"

record trans =
  t_in :: weights
  t_out :: weights

record petri_network =
  places :: "string list"
  transitions :: "(string \<times> trans) list"
  initial_marking :: "int list"

datatype tag = New | Processed | Old | DeadEnd

text \<open>
  A tree node. References to other nodes (parent, children, the path to the root and the
  work queue) are positions in the list \<open>nodes\<close> of the tree, which owns every node.
\<close>

record tree_node =
  marking :: "mval list"
  node_id :: nat
  tag :: tag
  parent :: "nat option"
  children :: "nat list"
  transition :: "string option"
  path_to_root :: "nat list"

text \<open>
  The tree object: its fields \<open>nodes\<close>, \<open>edges\<close> and \<open>root\<close>, with the two local
  variables of \<open>build_tree\<close>, the queue \<open>new_nodes\<close> and \<open>node_counter\<close>. The field
  \<open>petri_net\<close> is never assigned after the constructor; the functions below take the net
  as an argument of its own.
\<close>

record coverability_tree =
  nodes :: "tree_node list"
  edges :: "(nat \<times> nat \<times> string) list"
  root :: "nat option"
  new_nodes :: "nat list"
  node_counter :: nat

text \<open>
  How a call ends: it returns, or it raises with the object left as it was at the raise.
\<close>

datatype 'a outcome = Done 'a | Raised error 'a

fun tree_of :: "'a outcome \<Rightarrow> 'a" where
  "tree_of (Done s) = s"
| "tree_of (Raised e s) = s"

section \<open>PetriNetwork\<close>

text \<open>\<open>places.index(place)\<close>: the first position of the name, or a ValueError.\<close>

fun index_of :: "string list \<Rightarrow> string \<Rightarrow> error + nat" where
  "index_of [] p = Inl NotInList"
| "index_of (q # qs) p =
     (if q = p then Inr 0
      else (case index_of qs p of Inl e \<Rightarrow> Inl e | Inr i \<Rightarrow> Inr (Suc i)))"

text \<open>\<open>marking[idx] < weight\<close>: an int and a float are compared without conversion.\<close>

fun less_weight :: "mval \<Rightarrow> int \<Rightarrow> bool" where
  "less_weight (Fin a) w = (a < w)"
| "less_weight Omega w = False"

text \<open>
  The ints that Python cannot convert to a float: the largest float is
  \<open>2^1024 - 2^971\<close>, and an int rounds to a float beyond it from \<open>2^1024 - 2^970\<close> on.
\<close>

definition float_overflow :: "int \<Rightarrow> bool" where
  "float_overflow w \<longleftrightarrow> 2 ^ 1024 - 2 ^ 970 \<le> \<bar>w\<bar>"

text \<open>
  \<open>marking[idx] - weight\<close> and \<open>marking[idx] + weight\<close>: exact on two ints; with
  \<open>inf\<close> on the left the weight is converted to a float first.
\<close>

fun sub_weight :: "mval \<Rightarrow> int \<Rightarrow> error + mval" where
  "sub_weight (Fin a) w = Inr (Fin (a - w))"
| "sub_weight Omega w = (if float_overflow w then Inl OverflowError else Inr Omega)"

fun add_weight :: "mval \<Rightarrow> int \<Rightarrow> error + mval" where
  "add_weight (Fin a) w = Inr (Fin (a + w))"
| "add_weight Omega w = (if float_overflow w then Inl OverflowError else Inr Omega)"

text \<open>The loop of \<open>is_enabled\<close> over the items of the \<open>'in'\<close> dictionary.\<close>

fun enough_tokens :: "string list \<Rightarrow> weights \<Rightarrow> mval list \<Rightarrow> error + bool" where
  "enough_tokens ps [] m = Inr True"
| "enough_tokens ps ((p, w) # rest) m =
     (case index_of ps p of
        Inl e \<Rightarrow> Inl e
      | Inr idx \<Rightarrow>
          if idx < length m
          then (if less_weight (m ! idx) w then Inr False else enough_tokens ps rest m)
          else Inl IndexError)"

definition is_enabled :: "petri_network \<Rightarrow> string \<Rightarrow> mval list \<Rightarrow> error + bool" where
  "is_enabled net t m =
     (case map_of (transitions net) t of
        None \<Rightarrow> Inr False
      | Some tr \<Rightarrow> enough_tokens (places net) (t_in tr) m)"

text \<open>The list comprehension of \<open>get_enabled_transitions\<close>, over the names in order.\<close>

fun enabled_among :: "petri_network \<Rightarrow> string list \<Rightarrow> mval list \<Rightarrow> error + string list" where
  "enabled_among net [] m = Inr []"
| "enabled_among net (t # ts) m =
     (case is_enabled net t m of
        Inl e \<Rightarrow> Inl e
      | Inr b \<Rightarrow>
          (case enabled_among net ts m of
             Inl e \<Rightarrow> Inl e
           | Inr r \<Rightarrow> Inr (if b then t # r else r)))"

definition get_enabled_transitions :: "petri_network \<Rightarrow> mval list \<Rightarrow> error + string list" where
  "get_enabled_transitions net m = enabled_among net (map fst (transitions net)) m"

text \<open>The two loops of \<open>fire_transition\<close> on the copy \<open>new_marking\<close>.\<close>

fun remove_tokens :: "string list \<Rightarrow> weights \<Rightarrow> mval list \<Rightarrow> error + mval list" where
  "remove_tokens ps [] m = Inr m"
| "remove_tokens ps ((p, w) # rest) m =
     (case index_of ps p of
        Inl e \<Rightarrow> Inl e
      | Inr idx \<Rightarrow>
          if idx < length m
          then (case sub_weight (m ! idx) w of
                  Inl e \<Rightarrow> Inl e
                | Inr v \<Rightarrow> remove_tokens ps rest (m[idx := v]))
          else Inl IndexError)"

fun add_tokens :: "string list \<Rightarrow> weights \<Rightarrow> mval list \<Rightarrow> error + mval list" where
  "add_tokens ps [] m = Inr m"
| "add_tokens ps ((p, w) # rest) m =
     (case index_of ps p of
        Inl e \<Rightarrow> Inl e
      | Inr idx \<Rightarrow>
          if idx < length m
          then (case add_weight (m ! idx) w of
                  Inl e \<Rightarrow> Inl e
                | Inr v \<Rightarrow> add_tokens ps rest (m[idx := v]))
          else Inl IndexError)"

definition fire_transition :: "petri_network \<Rightarrow> string \<Rightarrow> mval list \<Rightarrow> error + mval list" where
  "fire_transition net t m =
     (case is_enabled net t m of
        Inl e \<Rightarrow> Inl e
      | Inr False \<Rightarrow> Inl CannotBeFired
      | Inr True \<Rightarrow>
          (case map_of (transitions net) t of
             None \<Rightarrow> Inl KeyError
           | Some tr \<Rightarrow>
               (case remove_tokens (places net) (t_in tr) m of
                  Inl e \<Rightarrow> Inl e
                | Inr m1 \<Rightarrow> add_tokens (places net) (t_out tr) m1)))"

section \<open>CoverabilityTree\<close>

text \<open>
  \<open>compare_markings\<close>: the loop over \<open>range(len(m1))\<close> reads \<open>m2[i]\<close> at every index,
  so a shorter \<open>m2\<close> raises IndexError. The accumulator is (coverable, equal, greater).
\<close>

fun compare_from :: "mval list \<Rightarrow> mval list \<Rightarrow> bool \<times> bool \<times> bool \<Rightarrow> error + bool \<times> bool \<times> bool" where
  "compare_from [] m2 acc = Inr acc"
| "compare_from (x # xs) [] acc = Inl IndexError"
| "compare_from (Omega # xs) (y # ys) (c, e, g) =
     compare_from xs ys (c, e, (if y \<noteq> Omega then True else g))"
| "compare_from (Fin a # xs) (Omega # ys) (c, e, g) = compare_from xs ys (False, False, g)"
| "compare_from (Fin a # xs) (Fin b # ys) (c, e, g) =
     (if a > b then compare_from xs ys (c, False, True)
      else if a < b then compare_from xs ys (False, False, g)
      else compare_from xs ys (c, e, g))"

definition compare_markings :: "mval list \<Rightarrow> mval list \<Rightarrow> error + bool \<times> bool \<times> bool" where
  "compare_markings m1 m2 = compare_from m1 m2 (True, True, False)"

text \<open>
  \<open>apply_omega\<close>: the condition is a short-circuit \<open>and\<close>, so \<open>m_ancestor[i]\<close> is
  read only where \<open>result[i]\<close> is not \<open>inf\<close>.
\<close>

fun apply_omega :: "mval list \<Rightarrow> mval list \<Rightarrow> error + mval list" where
  "apply_omega [] anc = Inr []"
| "apply_omega (Omega # xs) anc =
     (case apply_omega xs (drop 1 anc) of Inl e \<Rightarrow> Inl e | Inr r \<Rightarrow> Inr (Omega # r))"
| "apply_omega (Fin a # xs) [] = Inl IndexError"
| "apply_omega (Fin a # xs) (y # ys) =
     (case apply_omega xs ys of
        Inl e \<Rightarrow> Inl e
      | Inr r \<Rightarrow> Inr ((case y of Fin b \<Rightarrow> if a > b then Omega else Fin a | Omega \<Rightarrow> Fin a) # r))"

text \<open>
  The ancestor check of \<open>build_tree\<close>: the loop over \<open>current.path_to_root[:-1]\<close> that
  stops at the first ancestor for which \<open>compare_markings\<close> reports equal.
\<close>

fun equals_ancestor :: "tree_node list \<Rightarrow> mval list \<Rightarrow> nat list \<Rightarrow> error + bool" where
  "equals_ancestor ns m [] = Inr False"
| "equals_ancestor ns m (a # as) =
     (case compare_markings m (marking (ns ! a)) of
        Inl e \<Rightarrow> Inl e
      | Inr (c, e, g) \<Rightarrow> if e then Inr True else equals_ancestor ns m as)"

text \<open>
  The firing of \<open>build_tree\<close>: every \<open>inf\<close> of the current marking is replaced by 1000,
  the transition is fired on that list, and \<open>inf\<close> is written back at the positions where
  the current marking has it. \<open>fire_transition\<close> returns a list as long as its argument,
  so the positions written are in range.
\<close>

definition firing_marking :: "mval list \<Rightarrow> mval list" where
  "firing_marking cur = map (\<lambda>m. if m = Omega then Fin 1000 else m) cur"

definition restore_omega :: "mval list \<Rightarrow> mval list \<Rightarrow> mval list" where
  "restore_omega cur m_prime = map2 (\<lambda>m v. if m = Omega then Omega else v) cur m_prime"

definition fire_from_node :: "petri_network \<Rightarrow> string \<Rightarrow> mval list \<Rightarrow> error + mval list" where
  "fire_from_node net t cur =
     (case fire_transition net t (firing_marking cur) of
        Inl e \<Rightarrow> Inl e
      | Inr m_prime \<Rightarrow> Inr (restore_omega cur m_prime))"

text \<open>
  The loop over \<open>current.path_to_root\<close> that applies \<open>apply_omega\<close> at the first
  ancestor for which \<open>compare_markings\<close> reports coverable and not equal, and breaks.
\<close>

fun omega_from_ancestors :: "tree_node list \<Rightarrow> mval list \<Rightarrow> nat list \<Rightarrow> error + mval list" where
  "omega_from_ancestors ns m_prime [] = Inr m_prime"
| "omega_from_ancestors ns m_prime (a # as) =
     (case compare_markings m_prime (marking (ns ! a)) of
        Inl e \<Rightarrow> Inl e
      | Inr (c, e, g) \<Rightarrow>
          if c \<and> \<not> e then apply_omega m_prime (marking (ns ! a))
          else omega_from_ancestors ns m_prime as)"

text \<open>
  One round of the loop over the enabled transitions: fire, accelerate, create the child
  node and link it. \<open>cur\<close> is the position of \<open>current\<close>; the new node is stored at the
  end of \<open>nodes\<close>.
\<close>

definition add_child :: "petri_network \<Rightarrow> nat \<Rightarrow> string \<Rightarrow> coverability_tree \<Rightarrow> error + coverability_tree" where
  "add_child net cur t s =
     (let current = nodes s ! cur in
      case fire_from_node net t (marking current) of
        Inl e \<Rightarrow> Inl e
      | Inr m_prime \<Rightarrow>
          (case omega_from_ancestors (nodes s) m_prime (path_to_root current) of
             Inl e \<Rightarrow> Inl e
           | Inr m_acc \<Rightarrow>
               (let new = length (nodes s);
                    new_node = \<lparr>marking = m_acc, node_id = node_counter s, tag = New,
                                parent = Some cur, children = [], transition = Some t,
                                path_to_root = path_to_root current @ [new]\<rparr>
                in Inr (s\<lparr>nodes := (nodes s)[cur := current\<lparr>children := children current @ [new]\<rparr>] @ [new_node],
                          new_nodes := new_nodes s @ [new],
                          edges := edges s @ [(node_id current, node_counter s, t)],
                          node_counter := node_counter s + 1\<rparr>))))"

fun add_children :: "petri_network \<Rightarrow> nat \<Rightarrow> string list \<Rightarrow> coverability_tree \<Rightarrow> coverability_tree outcome" where
  "add_children net cur [] s = Done s"
| "add_children net cur (t # ts) s =
     (case add_child net cur t s of
        Inl e \<Rightarrow> Raised e s
      | Inr s' \<Rightarrow> add_children net cur ts s')"

definition set_tag :: "nat \<Rightarrow> tag \<Rightarrow> coverability_tree \<Rightarrow> coverability_tree" where
  "set_tag cur g s = s\<lparr>nodes := (nodes s)[cur := (nodes s ! cur)\<lparr>tag := g\<rparr>]\<rparr>"

text \<open>
  The body of the \<open>while new_nodes\<close> loop after \<open>current\<close> has been taken from the
  queue: the tag is set to processed, then the ancestor check, the enabled transitions
  and the children. \<open>Done\<close> means that the loop goes on with the next node.
\<close>

definition expand :: "petri_network \<Rightarrow> nat \<Rightarrow> coverability_tree \<Rightarrow> coverability_tree outcome" where
  "expand net cur s =
     (let s1 = set_tag cur Processed s;
          current = nodes s1 ! cur
      in case equals_ancestor (nodes s1) (marking current) (butlast (path_to_root current)) of
           Inl e \<Rightarrow> Raised e s1
         | Inr True \<Rightarrow> Done (set_tag cur Old s1)
         | Inr False \<Rightarrow>
             (case get_enabled_transitions net (marking current) of
                Inl e \<Rightarrow> Raised e s1
              | Inr [] \<Rightarrow> Done (set_tag cur DeadEnd s1)
              | Inr (t # ts) \<Rightarrow> add_children net cur (t # ts) s1))"

text \<open>
  The \<open>while new_nodes\<close> loop. It is not known to stop on every net, so it runs on a
  budget of iterations: \<open>None\<close> means the budget ran out with the queue not yet empty.
\<close>

fun build_loop :: "nat \<Rightarrow> petri_network \<Rightarrow> coverability_tree \<Rightarrow> coverability_tree outcome option" where
  "build_loop 0 net s = (if new_nodes s = [] then Some (Done s) else None)"
| "build_loop (Suc k) net s =
     (case new_nodes s of
        [] \<Rightarrow> Some (Done s)
      | cur # rest \<Rightarrow>
          (case expand net cur (s\<lparr>new_nodes := rest\<rparr>) of
             Raised e s' \<Rightarrow> Some (Raised e s')
           | Done s' \<Rightarrow> build_loop k net s'))"

text \<open>
  The constructor of the tree object: no nodes, no edges and no root. The two local
  variables of \<open>build_tree\<close> do not exist yet; they are given the values of an empty
  queue and a counter at 0.
\<close>

definition CoverabilityTree_init :: coverability_tree where
  "CoverabilityTree_init = \<lparr>nodes = [], edges = [], root = None, new_nodes = [], node_counter = 0\<rparr>"

text \<open>
  The start of \<open>build_tree\<close>, up to the loop: the counter starts at 0, the root node is
  made from the initial marking and appended to \<open>self.nodes\<close>, which is not cleared, and
  the queue holds the root alone. \<open>self.edges\<close> is left as it is.
\<close>

definition initial_tree :: "petri_network \<Rightarrow> coverability_tree \<Rightarrow> coverability_tree" where
  "initial_tree net self =
     (let root_node = length (nodes self)
      in self\<lparr>nodes := nodes self @
                   [\<lparr>marking = map Fin (initial_marking net), node_id = 0, tag = New,
                     parent = None, children = [], transition = None,
                     path_to_root = [root_node]\<rparr>],
               root := Some root_node, new_nodes := [root_node], node_counter := 1\<rparr>)"

text \<open>
  \<open>build_tree\<close> on the tree object \<open>self\<close> of the net. The program builds every tree
  on an object that it has just constructed: \<open>build_tree fuel net CoverabilityTree_init\<close>.
\<close>

definition build_tree :: "nat \<Rightarrow> petri_network \<Rightarrow> coverability_tree \<Rightarrow> coverability_tree outcome option" where
  "build_tree fuel net self = build_loop fuel net (initial_tree net self)"

section \<open>Reporting\<close>

text \<open>
  \<open>analyze_properties\<close> up to the point where it formats its findings as text: whether
  every place is bounded, the places seen with \<open>inf\<close> in first-seen order, the dead-end
  nodes and the old nodes. \<open>places[i]\<close> raises IndexError past the end of the list.
\<close>

record report =
  bounded :: bool
  unbounded_places :: "string list"
  dead_end_nodes :: "tree_node list"
  old_nodes :: "tree_node list"

fun scan_marking :: "string list \<Rightarrow> nat \<Rightarrow> mval list \<Rightarrow> report \<Rightarrow> error + report" where
  "scan_marking ps i [] r = Inr r"
| "scan_marking ps i (m # ms) r =
     (if m = Omega
      then (if i < length ps
            then scan_marking ps (Suc i) ms
                   (r\<lparr>bounded := False,
                      unbounded_places :=
                        (if ps ! i \<in> set (unbounded_places r) then unbounded_places r
                         else unbounded_places r @ [ps ! i])\<rparr>)
            else Inl IndexError)
      else scan_marking ps (Suc i) ms r)"

fun scan_nodes :: "string list \<Rightarrow> tree_node list \<Rightarrow> report \<Rightarrow> error + report" where
  "scan_nodes ps [] r = Inr r"
| "scan_nodes ps (n # ns) r =
     (case scan_marking ps 0 (marking n) r of
        Inl e \<Rightarrow> Inl e
      | Inr r1 \<Rightarrow>
          (let r2 = (if tag n = DeadEnd then r1\<lparr>dead_end_nodes := dead_end_nodes r1 @ [n]\<rparr> else r1);
               r3 = (if tag n = Old then r2\<lparr>old_nodes := old_nodes r2 @ [n]\<rparr> else r2)
           in scan_nodes ps ns r3))"

definition analyze_properties :: "petri_network \<Rightarrow> coverability_tree \<Rightarrow> error + report" where
  "analyze_properties net s =
     scan_nodes (places net) (nodes s)
       \<lparr>bounded = True, unbounded_places = [], dead_end_nodes = [], old_nodes = []\<rparr>"

text \<open>The nets of the scenarios.\<close>

definition net_grow :: petri_network where
  "net_grow = \<lparr>places = [''P0''],
               transitions = [(''t1'', \<lparr>t_in = [(''P0'', 1)], t_out = [(''P0'', 2)]\<rparr>)],
               initial_marking = [1]\<rparr>"

definition net_pump :: petri_network where
  "net_pump = \<lparr>places = [''P0'', ''P1''],
               transitions = [(''t1'', \<lparr>t_in = [(''P0'', 1)], t_out = [(''P0'', 1), (''P1'', 1)]\<rparr>)],
               initial_marking = [1, 0]\<rparr>"

section \<open>Notions used to state the properties\<close>

text \<open>
  A marking without \<open>\<omega>\<close>.
\<close>

definition fin_marking :: "mval list \<Rightarrow> bool" where
  "fin_marking m = (Omega \<notin> set m)"

text \<open>
  Coverable as the specification words it: every component of the first marking is
  at least that of the second, where \<open>\<omega>\<close> is at least anything and a finite value is
  below \<open>\<omega>\<close>.
\<close>

fun covers_entry :: "mval \<Rightarrow> mval \<Rightarrow> bool" where
  "covers_entry Omega y = True"
| "covers_entry (Fin a) Omega = False"
| "covers_entry (Fin a) (Fin b) = (b \<le> a)"

definition covers :: "mval list \<Rightarrow> mval list \<Rightarrow> bool" where
  "covers m1 m2 = list_all2 covers_entry m1 m2"

text \<open>
  What the equal flag of \<open>compare_markings\<close> computes on two markings of one length:
  every component of the first is \<open>\<omega>\<close> or is the component of the second.
\<close>

definition reported_equal :: "mval list \<Rightarrow> mval list \<Rightarrow> bool" where
  "reported_equal m1 m2 = list_all2 (\<lambda>x y. x = Omega \<or> x = y) m1 m2"

text \<open>
  Accelerate as the specification words it: a component becomes \<open>\<omega>\<close> where both
  values are finite and the candidate is above the ancestor, and stays otherwise.
\<close>

fun accelerate_entry :: "mval \<Rightarrow> mval \<Rightarrow> mval" where
  "accelerate_entry (Fin a) (Fin b) = (if a > b then Omega else Fin a)"
| "accelerate_entry x y = x"

definition accelerate :: "mval list \<Rightarrow> mval list \<Rightarrow> mval list" where
  "accelerate candidate ancestor = map2 accelerate_entry candidate ancestor"

text \<open>
  The invariant of the builder for the node at position \<open>i\<close>, with \<open>L\<close> the length
  of the initial marking: the marking has \<open>L\<close> entries; the path to the root ends with
  the node itself; the nodes before it on the path exist and their markings have \<open>L\<close>
  entries and no \<open>\<omega>\<close>; and the marking of the node has no \<open>\<omega>\<close>, or
  \<open>compare_markings\<close> reports it equal to the marking of one of those nodes.
\<close>

definition node_wf :: "nat \<Rightarrow> tree_node list \<Rightarrow> nat \<Rightarrow> bool" where
  "node_wf L ns i \<longleftrightarrow>
     length (marking (ns ! i)) = L \<and>
     path_to_root (ns ! i) \<noteq> [] \<and> last (path_to_root (ns ! i)) = i \<and>
     (\<forall>a\<in>set (butlast (path_to_root (ns ! i))).
        a < length ns \<and> fin_marking (marking (ns ! a)) \<and> length (marking (ns ! a)) = L) \<and>
     (fin_marking (marking (ns ! i)) \<or>
      (\<exists>a\<in>set (butlast (path_to_root (ns ! i))). reported_equal (marking (ns ! i)) (marking (ns ! a))))"

text \<open>
  The invariant of the builder: every node satisfies \<open>node_wf\<close> and the queue holds
  positions of nodes.
\<close>

definition tree_wf :: "nat \<Rightarrow> coverability_tree \<Rightarrow> bool" where
  "tree_wf L s \<longleftrightarrow>
     (\<forall>i<length (nodes s). node_wf L (nodes s) i) \<and>
     (\<forall>c\<in>set (new_nodes s). c < length (nodes s))"

text \<open>
  A net with one place and an initial marking of two entries.
\<close>

definition net_mismatch :: petri_network where
  "net_mismatch = \<lparr>places = [''P0''],
                   transitions = [(''t1'', \<lparr>t_in = [(''P0'', 1)], t_out = []\<rparr>)],
                   initial_marking = [1, 5]\<rparr>"

text \<open>A net whose transition gives to a place that is not in the place list.\<close>

definition net_unknown :: petri_network where
  "net_unknown = \<lparr>places = [''P0''],
                  transitions = [(''t1'', \<lparr>t_in = [(''P0'', 1)], t_out = [(''P9'', 1)]\<rparr>)],
                  initial_marking = [1]\<rparr>"

text \<open>
  The tree holds its root at the first position, with the initial marking of the net.
\<close>

definition root_kept :: "petri_network \<Rightarrow> coverability_tree \<Rightarrow> bool" where
  "root_kept net s \<longleftrightarrow>
     nodes s \<noteq> [] \<and> marking (nodes s ! 0) = map Fin (initial_marking net) \<and> root s = Some 0"

text \<open>
  The ids of the nodes are their positions in creation order, and the counter is the
  number of nodes.
\<close>

definition ids_in_order :: "coverability_tree \<Rightarrow> bool" where
  "ids_in_order s \<longleftrightarrow>
     node_counter s = length (nodes s) \<and> (\<forall>i<length (nodes s). node_id (nodes s ! i) = i)"

text \<open>
  The invariant of the \<open>while\<close> loop on tags: the queue holds distinct positions of
  nodes, a node is tagged new exactly while it is in the queue, and a node has children
  exactly when it is tagged processed.
\<close>

definition queue_inv :: "coverability_tree \<Rightarrow> bool" where
  "queue_inv s \<longleftrightarrow>
     distinct (new_nodes s) \<and> (\<forall>c\<in>set (new_nodes s). c < length (nodes s)) \<and>
     (\<forall>i<length (nodes s).
        (tag (nodes s ! i) = New \<longleftrightarrow> i \<in> set (new_nodes s)) \<and>
        (children (nodes s ! i) \<noteq> [] \<longleftrightarrow> tag (nodes s ! i) = Processed))"

text \<open>
  The same during the loop over the enabled transitions of the node \<open>cur\<close>, which has
  left the queue and is tagged processed but may not have a child yet.
\<close>

definition expanding_inv :: "nat \<Rightarrow> coverability_tree \<Rightarrow> bool" where
  "expanding_inv cur s \<longleftrightarrow>
     distinct (new_nodes s) \<and> (\<forall>c\<in>set (new_nodes s). c < length (nodes s)) \<and>
     cur < length (nodes s) \<and> cur \<notin> set (new_nodes s) \<and> tag (nodes s ! cur) = Processed \<and>
     (\<forall>i<length (nodes s).
        (tag (nodes s ! i) = New \<longleftrightarrow> i \<in> set (new_nodes s)) \<and>
        (i \<noteq> cur \<longrightarrow> (children (nodes s ! i) \<noteq> [] \<longleftrightarrow> tag (nodes s ! i) = Processed)))"

text \<open>
  Step 5b as the specification words it: walk the ancestors from the root to the current
  node, and at the first one that the successor covers without being equal to it,
  accelerate against that one and stop.
\<close>

definition first_match_accelerate :: "mval list \<Rightarrow> mval list list \<Rightarrow> mval list" where
  "first_match_accelerate successor ancestors =
     (case find (\<lambda>anc. covers successor anc \<and> successor \<noteq> anc) ancestors of
        None \<Rightarrow> successor
      | Some anc \<Rightarrow> accelerate successor anc)"

text \<open>
  What the builder's steps 5a to 5c promise for the node at position \<open>i\<close>: the root
  has the path \<open>[i]\<close>; a child of \<open>p\<close> has the path of \<open>p\<close> followed by itself, and its
  marking is the successor fired from the marking of \<open>p\<close>, accelerated by the first-match
  rule along the path from the root to \<open>p\<close> inclusive.
\<close>

definition node_rule :: "petri_network \<Rightarrow> tree_node list \<Rightarrow> nat \<Rightarrow> bool" where
  "node_rule net ns i \<longleftrightarrow>
     (case parent (ns ! i) of
        None \<Rightarrow> path_to_root (ns ! i) = [i]
      | Some p \<Rightarrow>
          p < length ns \<and>
          path_to_root (ns ! i) = path_to_root (ns ! p) @ [i] \<and>
          (\<exists>t successor.
             transition (ns ! i) = Some t \<and>
             fire_from_node net t (marking (ns ! p)) = Inr successor \<and>
             marking (ns ! i) =
               first_match_accelerate successor (map (\<lambda>a. marking (ns ! a)) (path_to_root (ns ! p)))))"

definition child_rule :: "petri_network \<Rightarrow> coverability_tree \<Rightarrow> bool" where
  "child_rule net s \<longleftrightarrow> (\<forall>i<length (nodes s). node_rule net (nodes s) i)"

text \<open>
  A net in which the successor \<open>[1, 1]\<close> covers both the root \<open>[1, 0]\<close> and the later
  ancestor \<open>[0, 1]\<close>, which would accelerate it differently.
\<close>

definition net_choice :: petri_network where
  "net_choice = \<lparr>places = [''P0'', ''P1''],
                 transitions =
                   [(''t1'', \<lparr>t_in = [(''P0'', 1)], t_out = [(''P1'', 1)]\<rparr>),
                    (''t2'', \<lparr>t_in = [(''P1'', 1)], t_out = [(''P0'', 1), (''P1'', 1)]\<rparr>)],
                 initial_marking = [1, 0]\<rparr>"






text \<open>
  The two functions that copy a marking, with the lists as objects in a store. A store
  is the list of the list objects that exist, an address is a position in it;
  \<open>copy.deepcopy\<close> puts a new object at the end, and an indexed assignment replaces one
  entry of one object.
\<close>

type_synonym addr = nat

type_synonym store = "mval list list"

text \<open>
  The two loops of \<open>fire_transition\<close>, assigning into the object \<open>new_marking\<close> at the
  address \<open>a\<close>.
\<close>

fun remove_tokens_at :: "string list \<Rightarrow> weights \<Rightarrow> store \<Rightarrow> addr \<Rightarrow> store \<times> (error + unit)" where
  "remove_tokens_at ps [] h a = (h, Inr ())"
| "remove_tokens_at ps ((p, w) # rest) h a =
     (case index_of ps p of
        Inl e \<Rightarrow> (h, Inl e)
      | Inr idx \<Rightarrow>
          if idx < length (h ! a)
          then (case sub_weight (h ! a ! idx) w of
                  Inl e \<Rightarrow> (h, Inl e)
                | Inr v \<Rightarrow> remove_tokens_at ps rest (h[a := (h ! a)[idx := v]]) a)
          else (h, Inl IndexError))"

fun add_tokens_at :: "string list \<Rightarrow> weights \<Rightarrow> store \<Rightarrow> addr \<Rightarrow> store \<times> (error + unit)" where
  "add_tokens_at ps [] h a = (h, Inr ())"
| "add_tokens_at ps ((p, w) # rest) h a =
     (case index_of ps p of
        Inl e \<Rightarrow> (h, Inl e)
      | Inr idx \<Rightarrow>
          if idx < length (h ! a)
          then (case add_weight (h ! a ! idx) w of
                  Inl e \<Rightarrow> (h, Inl e)
                | Inr v \<Rightarrow> add_tokens_at ps rest (h[a := (h ! a)[idx := v]]) a)
          else (h, Inl IndexError))"

text \<open>
  \<open>fire_transition\<close> on the marking object at the address \<open>a\<close>: the store afterwards,
  and the address of the returned object or the exception.
\<close>

definition fire_transition_store :: "petri_network \<Rightarrow> string \<Rightarrow> store \<Rightarrow> addr \<Rightarrow> store \<times> (error + addr)" where
  "fire_transition_store net t h a =
     (case is_enabled net t (h ! a) of
        Inl e \<Rightarrow> (h, Inl e)
      | Inr False \<Rightarrow> (h, Inl CannotBeFired)
      | Inr True \<Rightarrow>
          (let new_marking = length h;
               h1 = h @ [h ! a]
           in case map_of (transitions net) t of
                None \<Rightarrow> (h1, Inl KeyError)
              | Some tr \<Rightarrow>
                  (case remove_tokens_at (places net) (t_in tr) h1 new_marking of
                     (h2, Inl e) \<Rightarrow> (h2, Inl e)
                   | (h2, Inr u) \<Rightarrow>
                       (case add_tokens_at (places net) (t_out tr) h2 new_marking of
                          (h3, Inl e) \<Rightarrow> (h3, Inl e)
                        | (h3, Inr u) \<Rightarrow> (h3, Inr new_marking)))))"

text \<open>
  The loop of \<open>apply_omega\<close> over \<open>range(len(result))\<close>: \<open>n\<close> rounds are left, \<open>i\<close> is
  the index, \<open>r\<close> the address of \<open>result\<close> and \<open>anc\<close> that of \<open>m_ancestor\<close>.
\<close>

fun apply_omega_from :: "nat \<Rightarrow> nat \<Rightarrow> store \<Rightarrow> addr \<Rightarrow> addr \<Rightarrow> store \<times> (error + unit)" where
  "apply_omega_from 0 i h r anc = (h, Inr ())"
| "apply_omega_from (Suc n) i h r anc =
     (case h ! r ! i of
        Omega \<Rightarrow> apply_omega_from n (Suc i) h r anc
      | Fin a \<Rightarrow>
          if i < length (h ! anc)
          then (case h ! anc ! i of
                  Omega \<Rightarrow> apply_omega_from n (Suc i) h r anc
                | Fin b \<Rightarrow>
                    if a > b then apply_omega_from n (Suc i) (h[r := (h ! r)[i := Omega]]) r anc
                    else apply_omega_from n (Suc i) h r anc)
          else (h, Inl IndexError))"

text \<open>
  \<open>apply_omega\<close> on the marking objects at the addresses \<open>m_prime\<close> and \<open>m_ancestor\<close>.
\<close>

definition apply_omega_store :: "store \<Rightarrow> addr \<Rightarrow> addr \<Rightarrow> store \<times> (error + addr)" where
  "apply_omega_store h m_prime m_ancestor =
     (let result = length h;
          h1 = h @ [h ! m_prime]
      in case apply_omega_from (length (h1 ! result)) 0 h1 result m_ancestor of
           (h2, Inl e) \<Rightarrow> (h2, Inl e)
         | (h2, Inr u) \<Rightarrow> (h2, Inr result))"

text \<open>
  The weights of a map that Python can convert to a float, as \<open>inf - w\<close> and \<open>inf + w\<close>
  need it.
\<close>

definition float_weights :: "weights \<Rightarrow> bool" where
  "float_weights ws \<longleftrightarrow> (\<forall>pw\<in>set ws. \<not> float_overflow (snd pw))"

text \<open>
  A node of a tree that was built on an object already holding \<open>d\<close> nodes: the node as
  a new object would have it, with its references to other nodes moved by \<open>d\<close>.
\<close>

definition shift_node :: "nat \<Rightarrow> tree_node \<Rightarrow> tree_node" where
  "shift_node d n =
     n\<lparr>parent := map_option (\<lambda>p. d + p) (parent n),
       children := map (\<lambda>c. d + c) (children n),
       path_to_root := map (\<lambda>a. d + a) (path_to_root n)\<rparr>"

text \<open>
  The tree \<open>s\<close> placed after the contents of the object \<open>old\<close>: the nodes and edges of
  \<open>old\<close> come first and are untouched, those of \<open>s\<close> follow, with the same markings,
  ids, tags, transitions and edges, and with every reference moved by the number of the
  nodes of \<open>old\<close>.
\<close>

definition placed_after :: "coverability_tree \<Rightarrow> coverability_tree \<Rightarrow> coverability_tree" where
  "placed_after old s =
     \<lparr>nodes = nodes old @ map (shift_node (length (nodes old))) (nodes s),
      edges = edges old @ edges s,
      root = map_option (\<lambda>p. length (nodes old) + p) (root s),
      new_nodes = map (\<lambda>c. length (nodes old) + c) (new_nodes s),
      node_counter = node_counter s\<rparr>"

text \<open>A net whose transition takes nothing and gives -1 to its place.\<close>

definition net_negative :: petri_network where
  "net_negative = \<lparr>places = [''P0''],
                   transitions = [(''t1'', \<lparr>t_in = [], t_out = [(''P0'', - 1)]\<rparr>)],
                   initial_marking = [0]\<rparr>"

text \<open>
  A state of the builder from which the loop goes on for ever on that net: the queue
  holds one node, with a one-place finite marking that is below the markings of all the
  nodes before it on its path.
\<close>

definition descending :: "coverability_tree \<Rightarrow> bool" where
  "descending s \<longleftrightarrow>
     (\<exists>cur v. new_nodes s = [cur] \<and> cur < length (nodes s) \<and>
        marking (nodes s ! cur) = [Fin v] \<and>
        path_to_root (nodes s ! cur) \<noteq> [] \<and> last (path_to_root (nodes s ! cur)) = cur \<and>
        (\<forall>a\<in>set (butlast (path_to_root (nodes s ! cur))).
           a < length (nodes s) \<and> (\<exists>u. marking (nodes s ! a) = [Fin u] \<and> v < u)))"

section \<open>Auxiliary facts\<close>

lemma compare_from_flags:
  "length m1 = length m2 \<Longrightarrow>
   \<exists>g'. compare_from m1 m2 (c, e, g) = Inr (c \<and> covers m1 m2, e \<and> reported_equal m1 m2, g')"
proof (induction m1 m2 arbitrary: c e g rule: list_induct2)
  case Nil
  then show ?case by (simp add: covers_def reported_equal_def)
next
  case (Cons x xs y ys)
  show ?case
  proof (cases x)
    case (Fin a)
    then show ?thesis
    proof (cases y)
      case (Fin b)
      with \<open>x = Fin a\<close> Cons.IH[of c False True] Cons.IH[of False False g] Cons.IH[of c e g]
      show ?thesis by (auto simp: covers_def reported_equal_def)
    next
      case Omega
      with \<open>x = Fin a\<close> Cons.IH[of False False g]
      show ?thesis by (auto simp: covers_def reported_equal_def)
    qed
  next
    case Omega
    with Cons.IH[of c e "if y \<noteq> Omega then True else g"]
    show ?thesis by (auto simp: covers_def reported_equal_def)
  qed
qed

lemma compare_markings_flags:
  "length m1 = length m2 \<Longrightarrow>
   \<exists>g'. compare_markings m1 m2 = Inr (covers m1 m2, reported_equal m1 m2, g')"
  using compare_from_flags[of m1 m2 True True False] by (simp add: compare_markings_def)

lemma apply_omega_accelerate:
  "length m = length a \<Longrightarrow> apply_omega m a = Inr (accelerate m a)"
proof (induction m a rule: list_induct2)
  case Nil
  then show ?case by (simp add: accelerate_def)
next
  case (Cons x xs y ys)
  then show ?case by (cases x; cases y) (simp_all add: accelerate_def)
qed

lemma accelerate_reported_equal:
  "length m = length a \<Longrightarrow> covers m a \<Longrightarrow> reported_equal (accelerate m a) a"
proof (induction m a rule: list_induct2)
  case Nil
  then show ?case by (simp add: accelerate_def reported_equal_def)
next
  case (Cons x xs y ys)
  then show ?case by (cases x; cases y) (auto simp: accelerate_def reported_equal_def covers_def)
qed

lemma reported_equal_fin: "fin_marking m1 \<Longrightarrow> reported_equal m1 m2 = (m1 = m2)"
  unfolding reported_equal_def fin_marking_def
  by (induction m1 arbitrary: m2) (auto simp: list_all2_Cons1)

lemma length_accelerate: "length a = length m \<Longrightarrow> length (accelerate m a) = length m"
  by (simp add: accelerate_def)

lemma enabled_among_enabled:
  "enabled_among net ts m = Inr r \<Longrightarrow> t \<in> set r \<Longrightarrow> is_enabled net t m = Inr True"
  by (induction ts arbitrary: r) (auto split: sum.splits if_splits)

lemma fin_marking_update:
  "fin_marking m \<Longrightarrow> v \<noteq> Omega \<Longrightarrow> fin_marking (m[i := v])"
  unfolding fin_marking_def using set_update_subset_insert[of m i v] by auto

lemma sub_weight_fin:
  "i < length m \<Longrightarrow> fin_marking m \<Longrightarrow> \<exists>a. sub_weight (m ! i) w = Inr (Fin a)"
  unfolding fin_marking_def by (cases "m ! i") (auto dest: nth_mem)

lemma add_weight_fin:
  "i < length m \<Longrightarrow> fin_marking m \<Longrightarrow> \<exists>a. add_weight (m ! i) w = Inr (Fin a)"
  unfolding fin_marking_def by (cases "m ! i") (auto dest: nth_mem)

lemma remove_tokens_shape:
  "remove_tokens ps ws m = Inr m' \<Longrightarrow> length m' = length m \<and> (fin_marking m \<longrightarrow> fin_marking m')"
proof (induction ws arbitrary: m)
  case Nil
  then show ?case by simp
next
  case (Cons pw ws)
  obtain p w where pw: "pw = (p, w)" by (cases pw)
  from Cons.prems obtain idx v where idx: "index_of ps p = Inr idx" "idx < length m"
    and v: "sub_weight (m ! idx) w = Inr v"
    and rest: "remove_tokens ps ws (m[idx := v]) = Inr m'"
    by (auto simp: pw split: sum.splits if_splits)
  from Cons.IH[OF rest] have l: "length m' = length m"
    and f: "fin_marking (m[idx := v]) \<Longrightarrow> fin_marking m'" by simp_all
  have "fin_marking m \<Longrightarrow> fin_marking (m[idx := v])"
    using sub_weight_fin[OF idx(2), of w] v by (auto intro: fin_marking_update)
  with l f show ?case by blast
qed

lemma add_tokens_shape:
  "add_tokens ps ws m = Inr m' \<Longrightarrow> length m' = length m \<and> (fin_marking m \<longrightarrow> fin_marking m')"
proof (induction ws arbitrary: m)
  case Nil
  then show ?case by simp
next
  case (Cons pw ws)
  obtain p w where pw: "pw = (p, w)" by (cases pw)
  from Cons.prems obtain idx v where idx: "index_of ps p = Inr idx" "idx < length m"
    and v: "add_weight (m ! idx) w = Inr v"
    and rest: "add_tokens ps ws (m[idx := v]) = Inr m'"
    by (auto simp: pw split: sum.splits if_splits)
  from Cons.IH[OF rest] have l: "length m' = length m"
    and f: "fin_marking (m[idx := v]) \<Longrightarrow> fin_marking m'" by simp_all
  have "fin_marking m \<Longrightarrow> fin_marking (m[idx := v])"
    using add_weight_fin[OF idx(2), of w] v by (auto intro: fin_marking_update)
  with l f show ?case by blast
qed

lemma sub_weight_not_fired: "sub_weight v w \<noteq> Inl CannotBeFired"
  by (cases v) simp_all

lemma add_weight_not_fired: "add_weight v w \<noteq> Inl CannotBeFired"
  by (cases v) simp_all

lemma index_of_not_fired: "index_of ps p \<noteq> Inl CannotBeFired"
  by (induction ps) (auto split: sum.splits)

lemma remove_tokens_not_fired: "remove_tokens ps ws m \<noteq> Inl CannotBeFired"
  using index_of_not_fired sub_weight_not_fired
  by (induction ws arbitrary: m) (auto split: sum.splits if_splits)

lemma add_tokens_not_fired: "add_tokens ps ws m \<noteq> Inl CannotBeFired"
  using index_of_not_fired add_weight_not_fired
  by (induction ws arbitrary: m) (auto split: sum.splits if_splits)

lemma fire_transition_shape:
  "fire_transition net t m = Inr m' \<Longrightarrow> length m' = length m \<and> (fin_marking m \<longrightarrow> fin_marking m')"
  unfolding fire_transition_def
  by (auto split: sum.splits bool.splits option.splits dest!: remove_tokens_shape add_tokens_shape)

lemma fire_transition_enabled:
  "is_enabled net t m = Inr True \<Longrightarrow> fire_transition net t m \<noteq> Inl CannotBeFired"
  unfolding fire_transition_def
  using remove_tokens_not_fired add_tokens_not_fired
  by (auto split: sum.splits option.splits)

lemma firing_marking_fin: "fin_marking m \<Longrightarrow> firing_marking m = m"
  unfolding firing_marking_def fin_marking_def by (induction m) auto

lemma restore_omega_fin:
  "fin_marking cur \<Longrightarrow> length m' = length cur \<Longrightarrow> restore_omega cur m' = m'"
  unfolding restore_omega_def fin_marking_def
  by (induction cur arbitrary: m') (auto simp: length_Suc_conv)

lemma fire_from_node_fin:
  "fin_marking cur \<Longrightarrow> fire_from_node net t cur = fire_transition net t cur"
  unfolding fire_from_node_def
  by (auto simp: firing_marking_fin restore_omega_fin split: sum.splits dest!: fire_transition_shape)

lemma length_restore_omega: "length m' = length cur \<Longrightarrow> length (restore_omega cur m') = length cur"
  by (simp add: restore_omega_def)

lemma fire_from_node_length: "fire_from_node net t cur = Inr m' \<Longrightarrow> length m' = length cur"
  unfolding fire_from_node_def
  by (auto simp: firing_marking_def restore_omega_def split: sum.splits dest!: fire_transition_shape)

subsection \<open>The start of a build on a new object\<close>

lemma initial_tree_init:
  "initial_tree net CoverabilityTree_init =
     \<lparr>nodes = [\<lparr>marking = map Fin (initial_marking net), node_id = 0, tag = New,
                parent = None, children = [], transition = None, path_to_root = [0]\<rparr>],
      edges = [], root = Some 0, new_nodes = [0], node_counter = 1\<rparr>"
  by (simp add: initial_tree_def CoverabilityTree_init_def)

subsection \<open>set_tag\<close>

lemma set_tag_fields [simp]:
  "new_nodes (set_tag c g s) = new_nodes s"
  "edges (set_tag c g s) = edges s"
  "root (set_tag c g s) = root s"
  "node_counter (set_tag c g s) = node_counter s"
  "length (nodes (set_tag c g s)) = length (nodes s)"
  by (simp_all add: set_tag_def)

lemma set_tag_beyond:
  "\<not> c < length (nodes s) \<Longrightarrow> nodes (set_tag c g s) = nodes s"
proof -
  assume "\<not> c < length (nodes s)"
  then have "(nodes s)[c := (nodes s ! c)\<lparr>tag := g\<rparr>] = nodes s"
    by (intro list_update_beyond) simp
  then show ?thesis by (simp add: set_tag_def)
qed

lemma set_tag_within:
  "c < length (nodes s) \<Longrightarrow>
   nodes (set_tag c g s) ! i = (if i = c then (nodes s ! c)\<lparr>tag := g\<rparr> else nodes s ! i)"
  by (simp add: set_tag_def nth_list_update)

lemma set_tag_node [simp]:
  "marking (nodes (set_tag c g s) ! i) = marking (nodes s ! i)"
  "path_to_root (nodes (set_tag c g s) ! i) = path_to_root (nodes s ! i)"
  "children (nodes (set_tag c g s) ! i) = children (nodes s ! i)"
  "node_id (nodes (set_tag c g s) ! i) = node_id (nodes s ! i)"
proof -
  have "marking (nodes (set_tag c g s) ! i) = marking (nodes s ! i)
      \<and> path_to_root (nodes (set_tag c g s) ! i) = path_to_root (nodes s ! i)
      \<and> children (nodes (set_tag c g s) ! i) = children (nodes s ! i)
      \<and> node_id (nodes (set_tag c g s) ! i) = node_id (nodes s ! i)"
  proof (cases "c < length (nodes s)")
    case True
    then show ?thesis by (simp add: set_tag_within)
  next
    case False
    then show ?thesis by (simp add: set_tag_beyond)
  qed
  then show "marking (nodes (set_tag c g s) ! i) = marking (nodes s ! i)"
    and "path_to_root (nodes (set_tag c g s) ! i) = path_to_root (nodes s ! i)"
    and "children (nodes (set_tag c g s) ! i) = children (nodes s ! i)"
    and "node_id (nodes (set_tag c g s) ! i) = node_id (nodes s ! i)"
    by blast+
qed

lemma set_tag_tag:
  "tag (nodes (set_tag c g s) ! i) = (if i = c \<and> c < length (nodes s) then g else tag (nodes s ! i))"
proof (cases "c < length (nodes s)")
  case True
  then show ?thesis by (simp add: set_tag_within)
next
  case False
  then show ?thesis by (simp add: set_tag_beyond)
qed

subsection \<open>add_child\<close>

lemma add_child_Inr:
  assumes "add_child net cur t s = Inr s'"
  obtains m_prime m_acc where
    "fire_from_node net t (marking (nodes s ! cur)) = Inr m_prime"
    "omega_from_ancestors (nodes s) m_prime (path_to_root (nodes s ! cur)) = Inr m_acc"
    "nodes s' = (nodes s)[cur := (nodes s ! cur)\<lparr>children := children (nodes s ! cur) @ [length (nodes s)]\<rparr>]
                @ [\<lparr>marking = m_acc, node_id = node_counter s, tag = New, parent = Some cur,
                    children = [], transition = Some t,
                    path_to_root = path_to_root (nodes s ! cur) @ [length (nodes s)]\<rparr>]"
    "new_nodes s' = new_nodes s @ [length (nodes s)]"
    "edges s' = edges s @ [(node_id (nodes s ! cur), node_counter s, t)]"
    "node_counter s' = node_counter s + 1"
    "root s' = root s"
  using assms unfolding add_child_def Let_def
  by (auto split: sum.splits)

lemma add_child_old_node:
  assumes "add_child net cur t s = Inr s'" and "i < length (nodes s)"
  shows "marking (nodes s' ! i) = marking (nodes s ! i)"
    and "path_to_root (nodes s' ! i) = path_to_root (nodes s ! i)"
    and "tag (nodes s' ! i) = tag (nodes s ! i)"
    and "node_id (nodes s' ! i) = node_id (nodes s ! i)"
    and "children (nodes s' ! i) = (if i = cur then children (nodes s ! i) @ [length (nodes s)] else children (nodes s ! i))"
proof -
  from assms(1) obtain n where n: "nodes s' = (nodes s)[cur := (nodes s ! cur)\<lparr>children := children (nodes s ! cur) @ [length (nodes s)]\<rparr>] @ [n]"
    by (auto elim!: add_child_Inr)
  show "marking (nodes s' ! i) = marking (nodes s ! i)"
    using assms(2) by (cases "i = cur") (simp_all add: n nth_append)
  show "path_to_root (nodes s' ! i) = path_to_root (nodes s ! i)"
    using assms(2) by (cases "i = cur") (simp_all add: n nth_append)
  show "tag (nodes s' ! i) = tag (nodes s ! i)"
    using assms(2) by (cases "i = cur") (simp_all add: n nth_append)
  show "node_id (nodes s' ! i) = node_id (nodes s ! i)"
    using assms(2) by (cases "i = cur") (simp_all add: n nth_append)
  show "children (nodes s' ! i) = (if i = cur then children (nodes s ! i) @ [length (nodes s)] else children (nodes s ! i))"
    using assms(2) by (cases "i = cur") (simp_all add: n nth_append)
qed

lemma add_child_length:
  "add_child net cur t s = Inr s' \<Longrightarrow> length (nodes s') = Suc (length (nodes s))"
  by (auto elim!: add_child_Inr)

lemma add_child_new_node:
  assumes "add_child net cur t s = Inr s'"
  obtains m_prime m_acc where
    "fire_from_node net t (marking (nodes s ! cur)) = Inr m_prime"
    "omega_from_ancestors (nodes s) m_prime (path_to_root (nodes s ! cur)) = Inr m_acc"
    "nodes s' ! length (nodes s) =
       \<lparr>marking = m_acc, node_id = node_counter s, tag = New, parent = Some cur,
        children = [], transition = Some t,
        path_to_root = path_to_root (nodes s ! cur) @ [length (nodes s)]\<rparr>"
  using assms by (auto elim!: add_child_Inr simp: nth_append)

subsection \<open>Induction over the two loops\<close>

lemma add_children_invariant:
  assumes "add_children net cur ts s = out" and "P s"
    and "\<And>t s s'. t \<in> set ts \<Longrightarrow> P s \<Longrightarrow> add_child net cur t s = Inr s' \<Longrightarrow> P s'"
  shows "P (tree_of out)"
  using assms
proof (induction ts arbitrary: s)
  case Nil
  then show ?case by auto
next
  case (Cons t ts)
  show ?case
  proof (cases "add_child net cur t s")
    case (Inl e)
    with Cons.prems show ?thesis by auto
  next
    case (Inr s1)
    with Cons.prems have "P s1" by auto
    moreover from Inr Cons.prems have "add_children net cur ts s1 = out" by simp
    ultimately show ?thesis using Cons.IH[of s1] Cons.prems(3) by auto
  qed
qed

lemma add_children_Raised:
  assumes "add_children net cur ts s = Raised e s'" and "P s"
    and "\<And>t s s'. t \<in> set ts \<Longrightarrow> P s \<Longrightarrow> add_child net cur t s = Inr s' \<Longrightarrow> P s'"
  shows "\<exists>t\<in>set ts. P s' \<and> add_child net cur t s' = Inl e"
  using assms
proof (induction ts arbitrary: s)
  case Nil
  then show ?case by auto
next
  case (Cons t ts)
  show ?case
  proof (cases "add_child net cur t s")
    case (Inl e')
    with Cons.prems show ?thesis by auto
  next
    case (Inr s1)
    with Cons.prems have "P s1" by auto
    moreover from Inr Cons.prems have "add_children net cur ts s1 = Raised e s'" by simp
    ultimately have "\<exists>t\<in>set ts. P s' \<and> add_child net cur t s' = Inl e"
      using Cons.IH[of s1] Cons.prems(3) by auto
    then show ?thesis by auto
  qed
qed

lemma build_loop_invariant:
  assumes "build_loop fuel net s = Some out" and "P s"
    and "\<And>s cur rest out'. P s \<Longrightarrow> new_nodes s = cur # rest \<Longrightarrow>
           expand net cur (s\<lparr>new_nodes := rest\<rparr>) = out' \<Longrightarrow> P (tree_of out')"
  shows "P (tree_of out)"
  using assms
proof (induction fuel arbitrary: s)
  case 0
  then show ?case by (auto split: if_splits)
next
  case (Suc k)
  show ?case
  proof (cases "new_nodes s")
    case Nil
    with Suc.prems show ?thesis by auto
  next
    case (Cons cur rest)
    show ?thesis
    proof (cases "expand net cur (s\<lparr>new_nodes := rest\<rparr>)")
      case (Done s1)
      with Cons Suc.prems have "P s1" by fastforce
      moreover from Done Cons Suc.prems have "build_loop k net s1 = Some out" by simp
      ultimately show ?thesis using Suc.IH[of s1] Suc.prems(3) by blast
    next
      case (Raised e s1)
      with Cons Suc.prems have "P s1" by fastforce
      moreover from Raised Cons Suc.prems have "out = Raised e s1" by simp
      ultimately show ?thesis by simp
    qed
  qed
qed

lemma build_loop_invariant_Done:
  assumes "build_loop fuel net s = Some (Done t)" and "P s"
    and "\<And>s cur rest s'. P s \<Longrightarrow> new_nodes s = cur # rest \<Longrightarrow>
           expand net cur (s\<lparr>new_nodes := rest\<rparr>) = Done s' \<Longrightarrow> P s'"
  shows "P t \<and> new_nodes t = []"
  using assms
proof (induction fuel arbitrary: s)
  case 0
  then show ?case by (auto split: if_splits)
next
  case (Suc k)
  show ?case
  proof (cases "new_nodes s")
    case Nil
    with Suc.prems show ?thesis by auto
  next
    case (Cons cur rest)
    show ?thesis
    proof (cases "expand net cur (s\<lparr>new_nodes := rest\<rparr>)")
      case (Done s1)
      with Cons Suc.prems have "P s1" by blast
      moreover from Done Cons Suc.prems have "build_loop k net s1 = Some (Done t)" by simp
      ultimately show ?thesis using Suc.IH[of s1] Suc.prems(3) by blast
    next
      case (Raised e s1)
      with Cons Suc.prems show ?thesis by simp
    qed
  qed
qed

lemma build_loop_Raised:
  assumes "build_loop fuel net s = Some (Raised e t)" and "P s"
    and "\<And>s cur rest s'. P s \<Longrightarrow> new_nodes s = cur # rest \<Longrightarrow>
           expand net cur (s\<lparr>new_nodes := rest\<rparr>) = Done s' \<Longrightarrow> P s'"
  shows "\<exists>s0 cur rest. P s0 \<and> new_nodes s0 = cur # rest \<and>
           expand net cur (s0\<lparr>new_nodes := rest\<rparr>) = Raised e t"
  using assms
proof (induction fuel arbitrary: s)
  case 0
  then show ?case by (auto split: if_splits)
next
  case (Suc k)
  show ?case
  proof (cases "new_nodes s")
    case Nil
    with Suc.prems show ?thesis by auto
  next
    case (Cons cur rest)
    show ?thesis
    proof (cases "expand net cur (s\<lparr>new_nodes := rest\<rparr>)")
      case (Done s1)
      with Cons Suc.prems have "P s1" by blast
      moreover from Done Cons Suc.prems have "build_loop k net s1 = Some (Raised e t)" by simp
      ultimately show ?thesis using Suc.IH[of s1] Suc.prems(3) by blast
    next
      case (Raised e' s1)
      with Cons Suc.prems have "e' = e" "s1 = t" by simp_all
      with Raised Cons Suc.prems(2) show ?thesis by blast
    qed
  qed
qed

lemma build_loop_more_fuel:
  "build_loop k net s = Some out \<Longrightarrow> build_loop (k + j) net s = Some out"
proof (induction k arbitrary: s)
  case 0
  then show ?case by (cases j) (simp_all split: if_splits)
next
  case (Suc k)
  show ?case
  proof (cases "new_nodes s")
    case Nil
    then show ?thesis using Suc.prems by simp
  next
    case (Cons cur rest)
    show ?thesis
    proof (cases "expand net cur (s\<lparr>new_nodes := rest\<rparr>)")
      case (Done s1)
      with Cons Suc.prems have "build_loop k net s1 = Some out" by simp
      then have "build_loop (k + j) net s1 = Some out" by (rule Suc.IH)
      with Done Cons show ?thesis by simp
    next
      case (Raised e s1)
      with Cons Suc.prems have "out = Raised e s1" by simp
      with Raised Cons show ?thesis by simp
    qed
  qed
qed

subsection \<open>What the two walks over the ancestors compute\<close>

lemma equals_ancestor_result:
  "\<forall>a\<in>set as. length (marking (ns ! a)) = length m \<Longrightarrow>
   equals_ancestor ns m as = Inr (\<exists>a\<in>set as. reported_equal m (marking (ns ! a)))"
proof (induction as)
  case Nil
  then show ?case by simp
next
  case (Cons a as)
  then have len: "length (marking (ns ! a)) = length m" by simp
  from compare_markings_flags[OF len[symmetric]] obtain g' where cmp:
    "compare_markings m (marking (ns ! a)) =
       Inr (covers m (marking (ns ! a)), reported_equal m (marking (ns ! a)), g')" ..
  from Cons have rest: "equals_ancestor ns m as = Inr (\<exists>a\<in>set as. reported_equal m (marking (ns ! a)))"
    by simp
  show ?case by (simp add: cmp rest)
qed

lemma omega_from_ancestors_result:
  "\<forall>a\<in>set as. length (marking (ns ! a)) = length m \<Longrightarrow>
   omega_from_ancestors ns m as =
     Inr (case find (\<lambda>a. covers m (marking (ns ! a)) \<and> \<not> reported_equal m (marking (ns ! a))) as of
            None \<Rightarrow> m
          | Some a \<Rightarrow> accelerate m (marking (ns ! a)))"
proof (induction as)
  case Nil
  then show ?case by simp
next
  case (Cons a as)
  then have len: "length (marking (ns ! a)) = length m" by simp
  from compare_markings_flags[OF len[symmetric]] obtain g' where cmp:
    "compare_markings m (marking (ns ! a)) =
       Inr (covers m (marking (ns ! a)), reported_equal m (marking (ns ! a)), g')" ..
  have acc: "apply_omega m (marking (ns ! a)) = Inr (accelerate m (marking (ns ! a)))"
    by (rule apply_omega_accelerate[OF len[symmetric]])
  from Cons have rest: "omega_from_ancestors ns m as =
     Inr (case find (\<lambda>a. covers m (marking (ns ! a)) \<and> \<not> reported_equal m (marking (ns ! a))) as of
            None \<Rightarrow> m
          | Some a \<Rightarrow> accelerate m (marking (ns ! a)))"
    by simp
  show ?case by (simp add: cmp rest acc)
qed

subsection \<open>Errors of the comparison and the acceleration\<close>

lemma compare_from_error: "compare_from m1 m2 acc = Inl e \<Longrightarrow> e = IndexError"
  by (induction m1 m2 acc rule: compare_from.induct) (auto split: if_splits)

lemma apply_omega_error: "apply_omega m a = Inl e \<Longrightarrow> e = IndexError"
  by (induction m a rule: apply_omega.induct) (auto split: sum.splits)

lemma equals_ancestor_error: "equals_ancestor ns m as = Inl e \<Longrightarrow> e = IndexError"
  by (induction as) (auto split: sum.splits if_splits simp: compare_markings_def dest: compare_from_error)

lemma omega_from_ancestors_error: "omega_from_ancestors ns m as = Inl e \<Longrightarrow> e = IndexError"
  by (induction as)
     (auto split: sum.splits if_splits simp: compare_markings_def dest: compare_from_error apply_omega_error)

lemma enough_tokens_error: "enough_tokens ps ws m \<noteq> Inl CannotBeFired"
  using index_of_not_fired by (induction ws) (auto split: sum.splits if_splits)

lemma is_enabled_error: "is_enabled net t m \<noteq> Inl CannotBeFired"
  by (simp add: is_enabled_def enough_tokens_error split: option.splits)

lemma enabled_among_error: "enabled_among net ts m \<noteq> Inl CannotBeFired"
  using is_enabled_error by (induction ts) (auto split: sum.splits)

lemma get_enabled_transitions_error: "get_enabled_transitions net m \<noteq> Inl CannotBeFired"
  by (simp add: get_enabled_transitions_def enabled_among_error)

lemma node_wf_cong:
  assumes wf: "node_wf L ns i"
    and len: "length ns \<le> length ns'"
    and same: "\<And>j. j < length ns \<Longrightarrow>
                 marking (ns' ! j) = marking (ns ! j) \<and> path_to_root (ns' ! j) = path_to_root (ns ! j)"
    and i: "i < length ns"
  shows "node_wf L ns' i"
proof -
  let ?p = "butlast (path_to_root (ns ! i))"
  from wf have anc: "\<And>a. a \<in> set ?p \<Longrightarrow> a < length ns"
    by (simp add: node_wf_def)
  have m: "marking (ns' ! i) = marking (ns ! i)" and p: "path_to_root (ns' ! i) = path_to_root (ns ! i)"
    using same[OF i] by simp_all
  have ma: "\<And>a. a \<in> set ?p \<Longrightarrow> marking (ns' ! a) = marking (ns ! a)"
    using same anc by simp
  from wf have 1: "length (marking (ns ! i)) = L"
    and 2: "path_to_root (ns ! i) \<noteq> []" and 3: "last (path_to_root (ns ! i)) = i"
    and 4: "\<And>a. a \<in> set ?p \<Longrightarrow> fin_marking (marking (ns ! a)) \<and> length (marking (ns ! a)) = L"
    and 5: "fin_marking (marking (ns ! i)) \<or> (\<exists>a\<in>set ?p. reported_equal (marking (ns ! i)) (marking (ns ! a)))"
    by (simp_all add: node_wf_def)
  have w4: "\<forall>a\<in>set ?p. a < length ns' \<and> fin_marking (marking (ns' ! a)) \<and> length (marking (ns' ! a)) = L"
    using anc 4 ma len by fastforce
  have w5: "fin_marking (marking (ns ! i)) \<or> (\<exists>a\<in>set ?p. reported_equal (marking (ns ! i)) (marking (ns' ! a)))"
    using 5 ma by auto
  show ?thesis
    unfolding node_wf_def m p using 1 2 3 w4 w5 by blast
qed

lemma tree_wf_set_tag: "tree_wf L s \<Longrightarrow> tree_wf L (set_tag c g s)"
  unfolding tree_wf_def
proof (intro conjI allI impI ballI)
  fix i assume wf: "(\<forall>i<length (nodes s). node_wf L (nodes s) i) \<and> (\<forall>c\<in>set (new_nodes s). c < length (nodes s))"
    and "i < length (nodes (set_tag c g s))"
  then have i: "i < length (nodes s)" by simp
  with wf have "node_wf L (nodes s) i" by simp
  then show "node_wf L (nodes (set_tag c g s)) i"
    by (rule node_wf_cong) (simp_all add: i)
next
  fix x assume wf: "(\<forall>i<length (nodes s). node_wf L (nodes s) i) \<and> (\<forall>c\<in>set (new_nodes s). c < length (nodes s))"
    and "x \<in> set (new_nodes (set_tag c g s))"
  then show "x < length (nodes (set_tag c g s))" by simp
qed

lemma tree_wf_queue: "tree_wf L s \<Longrightarrow> new_nodes s = cur # rest \<Longrightarrow>
  tree_wf L (s\<lparr>new_nodes := rest\<rparr>) \<and> cur < length (nodes s)"
  by (simp add: tree_wf_def)

lemma node_wf_path:
  assumes "node_wf L ns i" and "fin_marking (marking (ns ! i))" and "i < length ns"
  shows "\<forall>a\<in>set (path_to_root (ns ! i)). a < length ns \<and> fin_marking (marking (ns ! a)) \<and> length (marking (ns ! a)) = L"
proof -
  from assms(1) have ne: "path_to_root (ns ! i) \<noteq> []" and l: "last (path_to_root (ns ! i)) = i"
    by (simp_all add: node_wf_def)
  then have "path_to_root (ns ! i) = butlast (path_to_root (ns ! i)) @ [i]"
    using append_butlast_last_id[OF ne] by simp
  then have "set (path_to_root (ns ! i)) = insert i (set (butlast (path_to_root (ns ! i))))"
    by (metis Un_insert_right append_Nil2 list.simps(15) set_append)
  moreover from assms(1) have "\<forall>a\<in>set (butlast (path_to_root (ns ! i))).
      a < length ns \<and> fin_marking (marking (ns ! a)) \<and> length (marking (ns ! a)) = L"
    and "length (marking (ns ! i)) = L"
    by (simp_all add: node_wf_def)
  ultimately show ?thesis using assms(2,3) by auto
qed

lemma fin_marking_accelerate_or:
  assumes len: "\<forall>a\<in>set as. length (marking (ns ! a)) = length m"
    and res: "omega_from_ancestors ns m as = Inr m_acc"
    and fin: "fin_marking m"
  shows "length m_acc = length m \<and>
         (fin_marking m_acc \<or> (\<exists>a\<in>set as. reported_equal m_acc (marking (ns ! a))))"
proof (cases "find (\<lambda>a. covers m (marking (ns ! a)) \<and> \<not> reported_equal m (marking (ns ! a))) as")
  case None
  with omega_from_ancestors_result[OF len] res have "m_acc = m" by simp
  with fin show ?thesis by simp
next
  case (Some a)
  with omega_from_ancestors_result[OF len] res have acc: "m_acc = accelerate m (marking (ns ! a))" by simp
  from Some have a: "a \<in> set as" and cov: "covers m (marking (ns ! a))"
    by (auto simp: find_Some_iff)
  from a len have l: "length m = length (marking (ns ! a))" by simp
  from accelerate_reported_equal[OF l cov] have "reported_equal m_acc (marking (ns ! a))"
    by (simp add: acc)
  moreover have "length m_acc = length m" using l by (simp add: acc accelerate_def)
  ultimately show ?thesis using a by blast
qed

lemma fire_from_node_shape:
  assumes "fire_from_node net t m = Inr m'" and "fin_marking m"
  shows "fin_marking m' \<and> length m' = length m"
proof -
  from assms have "fire_transition net t m = Inr m'" by (simp add: fire_from_node_fin)
  from fire_transition_shape[OF this] assms(2) show ?thesis by simp
qed

lemma tree_wf_add_child:
  assumes wf: "tree_wf L s" and cur: "cur < length (nodes s)"
    and fin: "fin_marking (marking (nodes s ! cur))"
    and ac: "add_child net cur t s = Inr s'"
  shows "tree_wf L s'"
proof -
  let ?n = "length (nodes s)"
  let ?path = "path_to_root (nodes s ! cur)"
  have len: "length (nodes s') = Suc ?n" by (rule add_child_length[OF ac])
  have same: "\<And>j. j < ?n \<Longrightarrow>
      marking (nodes s' ! j) = marking (nodes s ! j) \<and> path_to_root (nodes s' ! j) = path_to_root (nodes s ! j)"
    using add_child_old_node(1,2)[OF ac] by simp
  from wf cur have cwf: "node_wf L (nodes s) cur" by (simp add: tree_wf_def)
  have path: "\<forall>a\<in>set ?path. a < ?n \<and> fin_marking (marking (nodes s ! a)) \<and> length (marking (nodes s ! a)) = L"
    by (rule node_wf_path[OF cwf fin cur])
  from ac obtain m_prime m_acc where
    f: "fire_from_node net t (marking (nodes s ! cur)) = Inr m_prime" and
    o: "omega_from_ancestors (nodes s) m_prime ?path = Inr m_acc" and
    new: "nodes s' ! ?n = \<lparr>marking = m_acc, node_id = node_counter s, tag = New, parent = Some cur,
        children = [], transition = Some t, path_to_root = ?path @ [?n]\<rparr>"
    by (rule add_child_new_node)
  have nm: "marking (nodes s' ! ?n) = m_acc" and np: "path_to_root (nodes s' ! ?n) = ?path @ [?n]"
    by (simp_all add: new)
  from cwf have lc: "length (marking (nodes s ! cur)) = L" by (simp add: node_wf_def)
  from fire_from_node_shape[OF f fin] lc have fm: "fin_marking m_prime" and lm: "length m_prime = L"
    by simp_all
  have lens: "\<forall>a\<in>set ?path. length (marking (nodes s ! a)) = length m_prime"
    using path lm by simp
  from fin_marking_accelerate_or[OF lens o fm] lm
  have la: "length m_acc = L"
    and alt: "fin_marking m_acc \<or> (\<exists>a\<in>set ?path. reported_equal m_acc (marking (nodes s ! a)))"
    by simp_all
  have pm: "\<And>a. a \<in> set ?path \<Longrightarrow> marking (nodes s' ! a) = marking (nodes s ! a)"
    using path same by simp
  have new_wf: "node_wf L (nodes s') ?n"
    unfolding node_wf_def nm np using la alt path pm len by auto
  have old_wf: "\<And>i. i < ?n \<Longrightarrow> node_wf L (nodes s') i"
  proof -
    fix i assume i: "i < ?n"
    with wf have "node_wf L (nodes s) i" by (simp add: tree_wf_def)
    then show "node_wf L (nodes s') i"
      by (rule node_wf_cong) (simp_all add: len same i)
  qed
  have all: "\<forall>i<length (nodes s'). node_wf L (nodes s') i"
    using old_wf new_wf by (auto simp: len less_Suc_eq)
  from ac have q: "new_nodes s' = new_nodes s @ [?n]" by (rule add_child_Inr)
  from wf have "\<forall>c\<in>set (new_nodes s). c < ?n" by (simp add: tree_wf_def)
  then have "\<forall>c\<in>set (new_nodes s'). c < length (nodes s')"
    by (auto simp: q len)
  with all show ?thesis by (simp add: tree_wf_def)
qed

lemma expand_cases:
  assumes "expand net cur s = out"
  obtains
    (raise_compare) e where
      "equals_ancestor (nodes (set_tag cur Processed s)) (marking (nodes s ! cur))
         (butlast (path_to_root (nodes s ! cur))) = Inl e"
      "out = Raised e (set_tag cur Processed s)"
  | (old)
      "equals_ancestor (nodes (set_tag cur Processed s)) (marking (nodes s ! cur))
         (butlast (path_to_root (nodes s ! cur))) = Inr True"
      "out = Done (set_tag cur Old (set_tag cur Processed s))"
  | (raise_enabled) e where
      "equals_ancestor (nodes (set_tag cur Processed s)) (marking (nodes s ! cur))
         (butlast (path_to_root (nodes s ! cur))) = Inr False"
      "get_enabled_transitions net (marking (nodes s ! cur)) = Inl e"
      "out = Raised e (set_tag cur Processed s)"
  | (dead_end)
      "equals_ancestor (nodes (set_tag cur Processed s)) (marking (nodes s ! cur))
         (butlast (path_to_root (nodes s ! cur))) = Inr False"
      "get_enabled_transitions net (marking (nodes s ! cur)) = Inr []"
      "out = Done (set_tag cur DeadEnd (set_tag cur Processed s))"
  | (children) ts where
      "equals_ancestor (nodes (set_tag cur Processed s)) (marking (nodes s ! cur))
         (butlast (path_to_root (nodes s ! cur))) = Inr False"
      "get_enabled_transitions net (marking (nodes s ! cur)) = Inr ts" "ts \<noteq> []"
      "out = add_children net cur ts (set_tag cur Processed s)"
proof (cases "equals_ancestor (nodes (set_tag cur Processed s)) (marking (nodes s ! cur))
         (butlast (path_to_root (nodes s ! cur)))")
  case (Inl e)
  with assms have "out = Raised e (set_tag cur Processed s)" by (simp add: expand_def Let_def)
  with Inl show ?thesis by (rule raise_compare)
next
  case (Inr b)
  show ?thesis
  proof (cases b)
    case True
    with Inr assms have "out = Done (set_tag cur Old (set_tag cur Processed s))" by (simp add: expand_def Let_def)
    with Inr True show ?thesis using old by simp
  next
    case False
    then have bF: "b = False" by simp
    note eq = Inr[unfolded bF]
    show ?thesis
    proof (cases "get_enabled_transitions net (marking (nodes s ! cur))")
      case (Inl e)
      with eq assms have "out = Raised e (set_tag cur Processed s)" by (simp add: expand_def Let_def)
      with eq Inl show ?thesis by (rule raise_enabled)
    next
      case (Inr ts)
      show ?thesis
      proof (cases ts)
        case Nil
        with eq Inr assms have "out = Done (set_tag cur DeadEnd (set_tag cur Processed s))"
          by (simp add: expand_def Let_def)
        with eq Inr Nil show ?thesis using dead_end by simp
      next
        case (Cons t ts')
        with eq Inr assms have "out = add_children net cur ts (set_tag cur Processed s)"
          by (simp add: expand_def Let_def)
        with eq Inr Cons show ?thesis using children by simp
      qed
    qed
  qed
qed

lemma expand_fin:
  assumes wf: "tree_wf L s" and cur: "cur < length (nodes s)"
    and eq: "equals_ancestor (nodes (set_tag cur Processed s)) (marking (nodes s ! cur))
               (butlast (path_to_root (nodes s ! cur))) = Inr False"
  shows "fin_marking (marking (nodes s ! cur))"
proof -
  let ?s1 = "set_tag cur Processed s"
  let ?p = "butlast (path_to_root (nodes s ! cur))"
  from wf cur have cwf: "node_wf L (nodes s) cur" by (simp add: tree_wf_def)
  then have "\<forall>a\<in>set ?p. length (marking (nodes s ! a)) = length (marking (nodes s ! cur))"
    by (simp add: node_wf_def)
  then have lens: "\<forall>a\<in>set ?p. length (marking (nodes ?s1 ! a)) = length (marking (nodes s ! cur))"
    by simp
  from equals_ancestor_result[OF lens] eq
  have "\<not> (\<exists>a\<in>set ?p. reported_equal (marking (nodes s ! cur)) (marking (nodes ?s1 ! a)))"
    by simp
  then have "\<not> (\<exists>a\<in>set ?p. reported_equal (marking (nodes s ! cur)) (marking (nodes s ! a)))"
    by simp
  with cwf show ?thesis unfolding node_wf_def by blast
qed

lemma expanding_step:
  assumes "tree_wf L s \<and> cur < length (nodes s) \<and> marking (nodes s ! cur) = m0"
    and "fin_marking m0" and ac: "add_child net cur t s = Inr s'"
  shows "tree_wf L s' \<and> cur < length (nodes s') \<and> marking (nodes s' ! cur) = m0"
proof -
  from assms have wf: "tree_wf L s" and cur: "cur < length (nodes s)"
    and fin: "fin_marking (marking (nodes s ! cur))" and m: "marking (nodes s ! cur) = m0"
    by simp_all
  have "tree_wf L s'" by (rule tree_wf_add_child[OF wf cur fin ac])
  moreover have "cur < length (nodes s')" using add_child_length[OF ac] cur by simp
  moreover have "marking (nodes s' ! cur) = m0" using add_child_old_node(1)[OF ac cur] m by simp
  ultimately show ?thesis by simp
qed

lemma expand_tree_wf:
  assumes wf: "tree_wf L s" and cur: "cur < length (nodes s)" and ex: "expand net cur s = out"
  shows "tree_wf L (tree_of out)"
  using ex
proof (cases rule: expand_cases)
  case (raise_compare e)
  then show ?thesis using wf by (simp add: tree_wf_set_tag)
next
  case old
  then show ?thesis using wf by (simp add: tree_wf_set_tag)
next
  case (raise_enabled e)
  then show ?thesis using wf by (simp add: tree_wf_set_tag)
next
  case dead_end
  then show ?thesis using wf by (simp add: tree_wf_set_tag)
next
  case (children ts)
  let ?s1 = "set_tag cur Processed s"
  let ?m0 = "marking (nodes s ! cur)"
  have fin: "fin_marking ?m0" by (rule expand_fin[OF wf cur children(1)])
  have start: "tree_wf L ?s1 \<and> cur < length (nodes ?s1) \<and> marking (nodes ?s1 ! cur) = ?m0"
    using wf cur by (simp add: tree_wf_set_tag)
  have "tree_wf L (tree_of out) \<and> cur < length (nodes (tree_of out)) \<and> marking (nodes (tree_of out) ! cur) = ?m0"
    by (rule add_children_invariant[where P = "\<lambda>s. tree_wf L s \<and> cur < length (nodes s) \<and> marking (nodes s ! cur) = ?m0",
          OF children(4)[symmetric] start])
       (rule expanding_step[OF _ fin])
  then show ?thesis by simp
qed

lemma add_child_Inl:
  "add_child net cur t s = Inl e \<Longrightarrow>
   fire_from_node net t (marking (nodes s ! cur)) = Inl e \<or> e = IndexError"
  unfolding add_child_def Let_def
  by (auto split: sum.splits dest: omega_from_ancestors_error)

lemma fire_from_node_enabled:
  assumes "fin_marking m" and "is_enabled net t m = Inr True"
  shows "fire_from_node net t m \<noteq> Inl CannotBeFired"
  using fire_transition_enabled[OF assms(2)] assms(1) by (simp add: fire_from_node_fin)

lemma expand_not_fired:
  assumes wf: "tree_wf L s" and cur: "cur < length (nodes s)"
  shows "expand net cur s \<noteq> Raised CannotBeFired s'"
proof
  assume ex: "expand net cur s = Raised CannotBeFired s'"
  then show False
  proof (cases rule: expand_cases)
    case (raise_compare e)
    then show ?thesis using equals_ancestor_error by fastforce
  next
    case old
    then show ?thesis by simp
  next
    case (raise_enabled e)
    then show ?thesis using get_enabled_transitions_error[of net "marking (nodes s ! cur)"] by simp
  next
    case dead_end
    then show ?thesis by simp
  next
    case (children ts)
    let ?s1 = "set_tag cur Processed s"
    let ?m0 = "marking (nodes s ! cur)"
    have fin: "fin_marking ?m0" by (rule expand_fin[OF wf cur children(1)])
    have start: "tree_wf L ?s1 \<and> cur < length (nodes ?s1) \<and> marking (nodes ?s1 ! cur) = ?m0"
      using wf cur by (simp add: tree_wf_set_tag)
    have "\<exists>t\<in>set ts. (tree_wf L s' \<and> cur < length (nodes s') \<and> marking (nodes s' ! cur) = ?m0)
            \<and> add_child net cur t s' = Inl CannotBeFired"
      by (rule add_children_Raised[where P = "\<lambda>s. tree_wf L s \<and> cur < length (nodes s) \<and> marking (nodes s ! cur) = ?m0",
            OF children(4)[symmetric] start])
         (rule expanding_step[OF _ fin])
    then obtain t where t: "t \<in> set ts" and m: "marking (nodes s' ! cur) = ?m0"
      and ac: "add_child net cur t s' = Inl CannotBeFired" by blast
    from add_child_Inl[OF ac] m have "fire_from_node net t ?m0 = Inl CannotBeFired" by simp
    moreover from children(2) t have "is_enabled net t ?m0 = Inr True"
      unfolding get_enabled_transitions_def by (rule enabled_among_enabled)
    ultimately show ?thesis using fire_from_node_enabled[OF fin] by blast
  qed
qed

lemma tree_wf_initial: "tree_wf (length (initial_marking net)) (initial_tree net CoverabilityTree_init)"
  by (simp add: tree_wf_def node_wf_def initial_tree_init fin_marking_def image_iff)

lemma build_loop_tree_wf:
  assumes "build_loop fuel net s = Some out" and "tree_wf L s"
  shows "tree_wf L (tree_of out)"
  using assms
proof (rule build_loop_invariant)
  fix s cur rest out'
  assume wf: "tree_wf L s" and q: "new_nodes s = cur # rest"
    and ex: "expand net cur (s\<lparr>new_nodes := rest\<rparr>) = out'"
  from tree_wf_queue[OF wf q] have "tree_wf L (s\<lparr>new_nodes := rest\<rparr>)"
    and "cur < length (nodes (s\<lparr>new_nodes := rest\<rparr>))" by simp_all
  then show "tree_wf L (tree_of out')" using ex by (rule expand_tree_wf)
qed

lemma build_loop_not_fired:
  assumes wf: "tree_wf L s"
  shows "build_loop fuel net s \<noteq> Some (Raised CannotBeFired t)"
proof
  assume "build_loop fuel net s = Some (Raised CannotBeFired t)"
  then have "\<exists>s0 cur rest. tree_wf L s0 \<and> new_nodes s0 = cur # rest \<and>
      expand net cur (s0\<lparr>new_nodes := rest\<rparr>) = Raised CannotBeFired t"
    using wf
  proof (rule build_loop_Raised)
    fix s cur rest s'
    assume wf: "tree_wf L s" and q: "new_nodes s = cur # rest"
      and ex: "expand net cur (s\<lparr>new_nodes := rest\<rparr>) = Done s'"
    from tree_wf_queue[OF wf q] have "tree_wf L (s\<lparr>new_nodes := rest\<rparr>)"
      and "cur < length (nodes (s\<lparr>new_nodes := rest\<rparr>))" by simp_all
    from expand_tree_wf[OF this ex] show "tree_wf L s'" by simp
  qed
  then obtain s0 cur rest where wf0: "tree_wf L s0" and q: "new_nodes s0 = cur # rest"
    and ex: "expand net cur (s0\<lparr>new_nodes := rest\<rparr>) = Raised CannotBeFired t" by blast
  from tree_wf_queue[OF wf0 q] have "tree_wf L (s0\<lparr>new_nodes := rest\<rparr>)"
    and "cur < length (nodes (s0\<lparr>new_nodes := rest\<rparr>))" by simp_all
  from expand_not_fired[OF this] ex show False by blast
qed

lemma root_kept_set_tag: "root_kept net s \<Longrightarrow> root_kept net (set_tag c g s)"
  unfolding root_kept_def by (simp add: length_greater_0_conv[symmetric] del: length_greater_0_conv)

lemma root_kept_add_child:
  assumes "root_kept net s" and ac: "add_child net0 cur t s = Inr s'"
  shows "root_kept net s'"
proof -
  from assms(1) have pos: "0 < length (nodes s)" and m: "marking (nodes s ! 0) = map Fin (initial_marking net)"
    and r: "root s = Some 0" by (simp_all add: root_kept_def)
  have "0 < length (nodes s')" using add_child_length[OF ac] by simp
  moreover have "marking (nodes s' ! 0) = map Fin (initial_marking net)"
    using add_child_old_node(1)[OF ac pos] m by simp
  moreover have "root s' = root s" by (rule add_child_Inr[OF ac])
  then have "root s' = Some 0" using r by simp
  ultimately show ?thesis by (simp add: root_kept_def)
qed

lemma expand_root_kept:
  assumes rk: "root_kept net s" and ex: "expand net0 cur s = out"
  shows "root_kept net (tree_of out)"
  using ex
proof (cases rule: expand_cases)
  case (children ts)
  show ?thesis
    by (rule add_children_invariant[where P = "root_kept net", OF children(4)[symmetric]])
       (simp_all add: rk root_kept_set_tag root_kept_add_child)
qed (simp_all add: rk root_kept_set_tag)

lemma root_kept_queue: "root_kept net s \<Longrightarrow> root_kept net (s\<lparr>new_nodes := rest\<rparr>)"
  by (simp add: root_kept_def)

lemma build_loop_root_kept:
  assumes "build_loop fuel net0 s = Some out" and "root_kept net s"
  shows "root_kept net (tree_of out)"
  using assms
proof (rule build_loop_invariant)
  fix s cur rest out'
  assume "root_kept net s" and "expand net0 cur (s\<lparr>new_nodes := rest\<rparr>) = out'"
  then show "root_kept net (tree_of out')"
    using expand_root_kept[OF root_kept_queue] by blast
qed

lemma root_kept_initial: "root_kept net (initial_tree net CoverabilityTree_init)"
  by (simp add: root_kept_def initial_tree_init)

lemma ids_in_order_set_tag: "ids_in_order s \<Longrightarrow> ids_in_order (set_tag c g s)"
  by (simp add: ids_in_order_def)

lemma ids_in_order_add_child:
  assumes io: "ids_in_order s" and ac: "add_child net cur t s = Inr s'"
  shows "ids_in_order s'"
proof -
  let ?n = "length (nodes s)"
  from io have nc: "node_counter s = ?n" and ids: "\<And>i. i < ?n \<Longrightarrow> node_id (nodes s ! i) = i"
    by (simp_all add: ids_in_order_def)
  have len: "length (nodes s') = Suc ?n" by (rule add_child_length[OF ac])
  have "node_counter s' = node_counter s + 1" by (rule add_child_Inr[OF ac])
  then have c: "node_counter s' = Suc ?n" using nc by simp
  from ac obtain m_prime m_acc where
    new: "nodes s' ! ?n = \<lparr>marking = m_acc, node_id = node_counter s, tag = New, parent = Some cur,
        children = [], transition = Some t, path_to_root = path_to_root (nodes s ! cur) @ [?n]\<rparr>"
    by (rule add_child_new_node)
  have "node_id (nodes s' ! ?n) = ?n" by (simp add: new nc)
  moreover have "\<And>i. i < ?n \<Longrightarrow> node_id (nodes s' ! i) = i"
    using add_child_old_node(4)[OF ac] ids by simp
  ultimately have "\<forall>i<Suc ?n. node_id (nodes s' ! i) = i"
    by (auto simp: less_Suc_eq)
  with c len show ?thesis by (simp add: ids_in_order_def)
qed

lemma expand_ids_in_order:
  assumes io: "ids_in_order s" and ex: "expand net cur s = out"
  shows "ids_in_order (tree_of out)"
  using ex
proof (cases rule: expand_cases)
  case (children ts)
  show ?thesis
    by (rule add_children_invariant[where P = ids_in_order, OF children(4)[symmetric]])
       (simp_all add: io ids_in_order_set_tag ids_in_order_add_child)
qed (simp_all add: io ids_in_order_set_tag)

lemma ids_in_order_queue: "ids_in_order s \<Longrightarrow> ids_in_order (s\<lparr>new_nodes := rest\<rparr>)"
  by (simp add: ids_in_order_def)

lemma build_loop_ids_in_order:
  assumes "build_loop fuel net s = Some out" and "ids_in_order s"
  shows "ids_in_order (tree_of out)"
  using assms
proof (rule build_loop_invariant)
  fix s cur rest out'
  assume "ids_in_order s" and "expand net cur (s\<lparr>new_nodes := rest\<rparr>) = out'"
  then show "ids_in_order (tree_of out')"
    using expand_ids_in_order[OF ids_in_order_queue] by blast
qed

lemma ids_in_order_initial: "ids_in_order (initial_tree net CoverabilityTree_init)"
  by (simp add: ids_in_order_def initial_tree_init)

lemma build_loop_fuel_irrelevant:
  assumes "build_loop f1 net s = Some r1" and "build_loop f2 net s = Some r2"
  shows "r1 = r2"
proof (cases "f1 \<le> f2")
  case True
  then have "f2 = f1 + (f2 - f1)" by simp
  with build_loop_more_fuel[OF assms(1), of "f2 - f1"] assms(2) show ?thesis by simp
next
  case False
  then have "f1 = f2 + (f1 - f2)" by simp
  with build_loop_more_fuel[OF assms(2), of "f1 - f2"] assms(1) show ?thesis by simp
qed

lemma queue_inv_pop:
  assumes "queue_inv s" and "new_nodes s = cur # rest"
  shows "expanding_inv cur (set_tag cur Processed (s\<lparr>new_nodes := rest\<rparr>))"
    and "children (nodes (set_tag cur Processed (s\<lparr>new_nodes := rest\<rparr>)) ! cur) = []"
proof -
  from assms have d: "distinct rest" and c: "cur \<notin> set rest" and cl: "cur < length (nodes s)"
    and rl: "\<forall>c\<in>set rest. c < length (nodes s)"
    and tags: "\<And>i. i < length (nodes s) \<Longrightarrow> (tag (nodes s ! i) = New) = (i = cur \<or> i \<in> set rest)"
    and ch: "\<And>i. i < length (nodes s) \<Longrightarrow> (children (nodes s ! i) \<noteq> []) = (tag (nodes s ! i) = Processed)"
    by (simp_all add: queue_inv_def)
  from tags[OF cl] ch[OF cl] have c0: "children (nodes s ! cur) = []" by simp
  then show "children (nodes (set_tag cur Processed (s\<lparr>new_nodes := rest\<rparr>)) ! cur) = []" by simp
  show "expanding_inv cur (set_tag cur Processed (s\<lparr>new_nodes := rest\<rparr>))"
    unfolding expanding_inv_def using d c cl rl tags ch
    by (simp add: set_tag_tag)
qed

lemma expanding_inv_leaf:
  assumes "expanding_inv cur s" and "children (nodes s ! cur) = []" and "g = Old \<or> g = DeadEnd"
  shows "queue_inv (set_tag cur g s)"
  using assms unfolding expanding_inv_def queue_inv_def
  by (auto simp: set_tag_tag)

lemma expanding_inv_done:
  assumes "expanding_inv cur s" and "children (nodes s ! cur) \<noteq> []"
  shows "queue_inv s"
  using assms unfolding expanding_inv_def queue_inv_def by metis

lemma expanding_inv_add_child:
  assumes inv: "expanding_inv cur s" and ac: "add_child net cur t s = Inr s'"
  shows "expanding_inv cur s' \<and> children (nodes s' ! cur) \<noteq> []"
proof -
  let ?n = "length (nodes s)"
  from inv have d: "distinct (new_nodes s)" and ql: "\<forall>c\<in>set (new_nodes s). c < ?n"
    and cl: "cur < ?n" and cq: "cur \<notin> set (new_nodes s)" and ct: "tag (nodes s ! cur) = Processed"
    and tags: "\<And>i. i < ?n \<Longrightarrow> (tag (nodes s ! i) = New) = (i \<in> set (new_nodes s))"
    and ch: "\<And>i. i < ?n \<Longrightarrow> i \<noteq> cur \<Longrightarrow> (children (nodes s ! i) \<noteq> []) = (tag (nodes s ! i) = Processed)"
    by (simp_all add: expanding_inv_def)
  have len: "length (nodes s') = Suc ?n" by (rule add_child_length[OF ac])
  have q: "new_nodes s' = new_nodes s @ [?n]" by (rule add_child_Inr[OF ac])
  from ac obtain m_prime m_acc where
    new: "nodes s' ! ?n = \<lparr>marking = m_acc, node_id = node_counter s, tag = New, parent = Some cur,
        children = [], transition = Some t, path_to_root = path_to_root (nodes s ! cur) @ [?n]\<rparr>"
    by (rule add_child_new_node)
  have nt: "tag (nodes s' ! ?n) = New" and nc: "children (nodes s' ! ?n) = []"
    by (simp_all add: new)
  have ot: "\<And>i. i < ?n \<Longrightarrow> tag (nodes s' ! i) = tag (nodes s ! i)"
    by (rule add_child_old_node(3)[OF ac])
  have oc: "\<And>i. i < ?n \<Longrightarrow> i \<noteq> cur \<Longrightarrow> children (nodes s' ! i) = children (nodes s ! i)"
    using add_child_old_node(5)[OF ac] by simp
  have cc: "children (nodes s' ! cur) \<noteq> []"
    using add_child_old_node(5)[OF ac cl] by simp
  have nq: "?n \<notin> set (new_nodes s)" using ql by auto
  have 1: "distinct (new_nodes s')" using d nq by (simp add: q)
  have 2: "\<forall>c\<in>set (new_nodes s'). c < length (nodes s')" using ql by (auto simp: q len)
  have 3: "cur < length (nodes s')" using cl len by simp
  have 4: "cur \<notin> set (new_nodes s')" using cq cl by (simp add: q)
  have 5: "tag (nodes s' ! cur) = Processed" using ot[OF cl] ct by simp
  have 6: "\<forall>i<length (nodes s').
        (tag (nodes s' ! i) = New \<longleftrightarrow> i \<in> set (new_nodes s')) \<and>
        (i \<noteq> cur \<longrightarrow> (children (nodes s' ! i) \<noteq> [] \<longleftrightarrow> tag (nodes s' ! i) = Processed))"
  proof (intro allI impI)
    fix i assume "i < length (nodes s')"
    then consider "i < ?n" | "i = ?n" using len by linarith
    then show "(tag (nodes s' ! i) = New \<longleftrightarrow> i \<in> set (new_nodes s')) \<and>
        (i \<noteq> cur \<longrightarrow> (children (nodes s' ! i) \<noteq> [] \<longleftrightarrow> tag (nodes s' ! i) = Processed))"
    proof cases
      case 1
      then show ?thesis using ot[OF 1] oc[OF 1] tags[OF 1] ch[OF 1] by (auto simp: q)
    next
      case 2
      then show ?thesis using nt nc by (simp add: q)
    qed
  qed
  from 1 2 3 4 5 6 cc show ?thesis unfolding expanding_inv_def by blast
qed

lemma add_children_expanding:
  assumes inv: "expanding_inv cur s" and ts: "ts \<noteq> []"
    and res: "add_children net cur ts s = Done s'"
  shows "queue_inv s'"
proof -
  from ts obtain t ts' where tts: "ts = t # ts'" by (cases ts) auto
  from res tts obtain s1 where ac: "add_child net cur t s = Inr s1"
    and rest: "add_children net cur ts' s1 = Done s'"
    by (cases "add_child net cur t s") auto
  have step: "\<And>t s s'. t \<in> set ts' \<Longrightarrow>
      expanding_inv cur s \<and> children (nodes s ! cur) \<noteq> [] \<Longrightarrow>
      add_child net cur t s = Inr s' \<Longrightarrow>
      expanding_inv cur s' \<and> children (nodes s' ! cur) \<noteq> []"
  proof -
    fix t s s'
    assume "expanding_inv cur s \<and> children (nodes s ! cur) \<noteq> []"
      and a: "add_child net cur t s = Inr s'"
    then have "expanding_inv cur s" by simp
    from expanding_inv_add_child[OF this a]
    show "expanding_inv cur s' \<and> children (nodes s' ! cur) \<noteq> []" .
  qed
  have "expanding_inv cur (tree_of (Done s')) \<and> children (nodes (tree_of (Done s')) ! cur) \<noteq> []"
    by (rule add_children_invariant[where P = "\<lambda>s. expanding_inv cur s \<and> children (nodes s ! cur) \<noteq> []",
          OF rest expanding_inv_add_child[OF inv ac] step])
  then have e: "expanding_inv cur s'" and c: "children (nodes s' ! cur) \<noteq> []" by simp_all
  show ?thesis by (rule expanding_inv_done[OF e c])
qed

lemma expand_queue_inv:
  assumes inv: "queue_inv s" and q: "new_nodes s = cur # rest"
    and ex: "expand net cur (s\<lparr>new_nodes := rest\<rparr>) = Done s'"
  shows "queue_inv s'"
  using ex
proof (cases rule: expand_cases)
  case old
  then show ?thesis using expanding_inv_leaf[OF queue_inv_pop[OF inv q]] by simp
next
  case dead_end
  then show ?thesis using expanding_inv_leaf[OF queue_inv_pop[OF inv q]] by simp
next
  case (children ts)
  from add_children_expanding[OF queue_inv_pop(1)[OF inv q] children(3) children(4)[symmetric]]
  show ?thesis .
qed simp_all

lemma queue_inv_initial: "queue_inv (initial_tree net CoverabilityTree_init)"
  by (simp add: queue_inv_def initial_tree_init)

lemma build_loop_tags:
  assumes "build_loop fuel net s = Some (Done t)" and "queue_inv s"
  shows "queue_inv t \<and> new_nodes t = []"
  using assms by (rule build_loop_invariant_Done) (rule expand_queue_inv)

lemma find_map_list: "find P (map f xs) = map_option f (find (\<lambda>x. P (f x)) xs)"
  by (induction xs) simp_all

lemma set_tag_links [simp]:
  "parent (nodes (set_tag c g s) ! i) = parent (nodes s ! i)"
  "transition (nodes (set_tag c g s) ! i) = transition (nodes s ! i)"
proof -
  have "parent (nodes (set_tag c g s) ! i) = parent (nodes s ! i)
      \<and> transition (nodes (set_tag c g s) ! i) = transition (nodes s ! i)"
  proof (cases "c < length (nodes s)")
    case True
    then show ?thesis by (simp add: set_tag_within)
  next
    case False
    then show ?thesis by (simp add: set_tag_beyond)
  qed
  then show "parent (nodes (set_tag c g s) ! i) = parent (nodes s ! i)"
    and "transition (nodes (set_tag c g s) ! i) = transition (nodes s ! i)"
    by blast+
qed

lemma add_child_old_links:
  assumes "add_child net cur t s = Inr s'" and "i < length (nodes s)"
  shows "parent (nodes s' ! i) = parent (nodes s ! i)"
    and "transition (nodes s' ! i) = transition (nodes s ! i)"
proof -
  from assms(1) obtain n where n: "nodes s' = (nodes s)[cur := (nodes s ! cur)\<lparr>children := children (nodes s ! cur) @ [length (nodes s)]\<rparr>] @ [n]"
    by (auto elim!: add_child_Inr)
  show "parent (nodes s' ! i) = parent (nodes s ! i)"
    using assms(2) by (cases "i = cur") (simp_all add: n nth_append)
  show "transition (nodes s' ! i) = transition (nodes s ! i)"
    using assms(2) by (cases "i = cur") (simp_all add: n nth_append)
qed

lemma omega_from_ancestors_first_match:
  assumes len: "\<forall>a\<in>set as. length (marking (ns ! a)) = length m" and fin: "fin_marking m"
  shows "omega_from_ancestors ns m as =
           Inr (first_match_accelerate m (map (\<lambda>a. marking (ns ! a)) as))"
proof -
  have "(\<lambda>a. covers m (marking (ns ! a)) \<and> \<not> reported_equal m (marking (ns ! a))) =
        (\<lambda>a. covers m (marking (ns ! a)) \<and> m \<noteq> marking (ns ! a))"
    by (simp add: reported_equal_fin[OF fin])
  then show ?thesis
    unfolding first_match_accelerate_def find_map_list omega_from_ancestors_result[OF len]
    by (simp add: option.case_eq_if option.map_sel)
qed

lemma node_rule_cong:
  assumes nr: "node_rule net ns i" and i: "i < length ns" and len: "length ns \<le> length ns'"
    and same: "\<And>j. j < length ns \<Longrightarrow>
        marking (ns' ! j) = marking (ns ! j) \<and>
        path_to_root (ns' ! j) = path_to_root (ns ! j) \<and>
        parent (ns' ! j) = parent (ns ! j) \<and>
        transition (ns' ! j) = transition (ns ! j)"
    and anc: "\<forall>a\<in>set (butlast (path_to_root (ns ! i))). a < length ns"
  shows "node_rule net ns' i"
proof (cases "parent (ns ! i)")
  case None
  with nr have "path_to_root (ns ! i) = [i]" by (simp add: node_rule_def)
  with None same[OF i] show ?thesis by (simp add: node_rule_def)
next
  case (Some p)
  with nr obtain t successor where p: "p < length ns"
    and path: "path_to_root (ns ! i) = path_to_root (ns ! p) @ [i]"
    and tr: "transition (ns ! i) = Some t"
    and f: "fire_from_node net t (marking (ns ! p)) = Inr successor"
    and m: "marking (ns ! i) =
       first_match_accelerate successor (map (\<lambda>a. marking (ns ! a)) (path_to_root (ns ! p)))"
    by (auto simp: node_rule_def)
  from anc path have "\<forall>a\<in>set (path_to_root (ns ! p)). a < length ns" by simp
  then have maps: "map (\<lambda>a. marking (ns' ! a)) (path_to_root (ns ! p)) =
                   map (\<lambda>a. marking (ns ! a)) (path_to_root (ns ! p))"
    using same by simp
  have 1: "parent (ns' ! i) = Some p" using same[OF i] Some by simp
  have 2: "p < length ns'" using p len by simp
  have 3: "path_to_root (ns' ! i) = path_to_root (ns' ! p) @ [i]"
    using same[OF i] same[OF p] path by simp
  have 4: "transition (ns' ! i) = Some t" using same[OF i] tr by simp
  have 5: "fire_from_node net t (marking (ns' ! p)) = Inr successor" using same[OF p] f by simp
  have 6: "marking (ns' ! i) =
       first_match_accelerate successor (map (\<lambda>a. marking (ns' ! a)) (path_to_root (ns' ! p)))"
    using same[OF i] same[OF p] m by (simp add: maps del: map_eq_conv)
  show ?thesis unfolding node_rule_def using 1 2 3 4 5 6 by simp
qed

lemma node_wf_anc: "node_wf L ns i \<Longrightarrow> \<forall>a\<in>set (butlast (path_to_root (ns ! i))). a < length ns"
  by (simp add: node_wf_def)

lemma child_rule_set_tag:
  assumes "child_rule net s" and wf: "tree_wf L s"
  shows "child_rule net (set_tag c g s)"
  unfolding child_rule_def
proof (intro allI impI)
  fix i assume "i < length (nodes (set_tag c g s))"
  then have i: "i < length (nodes s)" by simp
  with assms(1) have nr: "node_rule net (nodes s) i" by (simp add: child_rule_def)
  from wf i have "node_wf L (nodes s) i" by (simp add: tree_wf_def)
  then have anc: "\<forall>a\<in>set (butlast (path_to_root (nodes s ! i))). a < length (nodes s)"
    by (rule node_wf_anc)
  show "node_rule net (nodes (set_tag c g s)) i"
    by (rule node_rule_cong[OF nr i _ _ anc]) simp_all
qed

lemma child_rule_add_child:
  assumes cr: "child_rule net s" and wf: "tree_wf L s" and cur: "cur < length (nodes s)"
    and fin: "fin_marking (marking (nodes s ! cur))"
    and ac: "add_child net cur t s = Inr s'"
  shows "child_rule net s'"
proof -
  let ?n = "length (nodes s)"
  let ?path = "path_to_root (nodes s ! cur)"
  have len: "length (nodes s') = Suc ?n" by (rule add_child_length[OF ac])
  have same: "\<And>j. j < ?n \<Longrightarrow>
        marking (nodes s' ! j) = marking (nodes s ! j) \<and>
        path_to_root (nodes s' ! j) = path_to_root (nodes s ! j) \<and>
        parent (nodes s' ! j) = parent (nodes s ! j) \<and>
        transition (nodes s' ! j) = transition (nodes s ! j)"
    using add_child_old_node(1,2)[OF ac] add_child_old_links[OF ac] by simp
  from wf cur have cwf: "node_wf L (nodes s) cur" by (simp add: tree_wf_def)
  have path: "\<forall>a\<in>set ?path. a < ?n \<and> fin_marking (marking (nodes s ! a)) \<and> length (marking (nodes s ! a)) = L"
    by (rule node_wf_path[OF cwf fin cur])
  from ac obtain m_prime m_acc where
    f: "fire_from_node net t (marking (nodes s ! cur)) = Inr m_prime" and
    o: "omega_from_ancestors (nodes s) m_prime ?path = Inr m_acc" and
    new: "nodes s' ! ?n = \<lparr>marking = m_acc, node_id = node_counter s, tag = New, parent = Some cur,
        children = [], transition = Some t, path_to_root = ?path @ [?n]\<rparr>"
    by (rule add_child_new_node)
  from cwf have lc: "length (marking (nodes s ! cur)) = L" by (simp add: node_wf_def)
  from fire_from_node_shape[OF f fin] lc have fm: "fin_marking m_prime" and lm: "length m_prime = L"
    by simp_all
  have lens: "\<forall>a\<in>set ?path. length (marking (nodes s ! a)) = length m_prime"
    using path lm by simp
  from omega_from_ancestors_first_match[OF lens fm] o
  have acc: "m_acc = first_match_accelerate m_prime (map (\<lambda>a. marking (nodes s ! a)) ?path)"
    by simp
  have maps: "map (\<lambda>a. marking (nodes s' ! a)) ?path = map (\<lambda>a. marking (nodes s ! a)) ?path"
    using path same by simp
  have 1: "parent (nodes s' ! ?n) = Some cur" by (simp add: new)
  have 2: "cur < length (nodes s')" using cur len by simp
  have 3: "path_to_root (nodes s' ! ?n) = path_to_root (nodes s' ! cur) @ [?n]"
    using same[OF cur] by (simp add: new)
  have 4: "transition (nodes s' ! ?n) = Some t" by (simp add: new)
  have 5: "fire_from_node net t (marking (nodes s' ! cur)) = Inr m_prime"
    using same[OF cur] f by simp
  have 6: "marking (nodes s' ! ?n) =
      first_match_accelerate m_prime (map (\<lambda>a. marking (nodes s' ! a)) (path_to_root (nodes s' ! cur)))"
    using same[OF cur] acc by (simp add: new maps del: map_eq_conv)
  have new_rule: "node_rule net (nodes s') ?n"
    unfolding node_rule_def using 1 2 3 4 5 6 by simp
  have old_rule: "\<And>i. i < ?n \<Longrightarrow> node_rule net (nodes s') i"
  proof -
    fix i assume i: "i < ?n"
    with cr have nr: "node_rule net (nodes s) i" by (simp add: child_rule_def)
    from wf i have "node_wf L (nodes s) i" by (simp add: tree_wf_def)
    then have anc: "\<forall>a\<in>set (butlast (path_to_root (nodes s ! i))). a < ?n"
      by (rule node_wf_anc)
    show "node_rule net (nodes s') i"
      by (rule node_rule_cong[OF nr i _ same anc]) (simp_all add: len)
  qed
  show ?thesis
    unfolding child_rule_def using old_rule new_rule by (auto simp: len less_Suc_eq)
qed

lemma child_rule_queue: "child_rule net s \<Longrightarrow> child_rule net (s\<lparr>new_nodes := rest\<rparr>)"
  by (simp add: child_rule_def)

lemma child_rule_initial: "child_rule net (initial_tree net CoverabilityTree_init)"
  by (simp add: child_rule_def node_rule_def initial_tree_init)

lemma expanding_rule_step:
  assumes "(tree_wf L s \<and> cur < length (nodes s) \<and> marking (nodes s ! cur) = m0) \<and> child_rule net s"
    and fin: "fin_marking m0" and ac: "add_child net cur t s = Inr s'"
  shows "(tree_wf L s' \<and> cur < length (nodes s') \<and> marking (nodes s' ! cur) = m0) \<and> child_rule net s'"
proof -
  from assms(1) have a: "tree_wf L s \<and> cur < length (nodes s) \<and> marking (nodes s ! cur) = m0"
    and cr: "child_rule net s" by simp_all
  from a fin have f: "fin_marking (marking (nodes s ! cur))" by simp
  from a have wf: "tree_wf L s" and cur: "cur < length (nodes s)" by simp_all
  from expanding_step[OF a fin ac] child_rule_add_child[OF cr wf cur f ac] show ?thesis by simp
qed

lemma expand_child_rule:
  assumes wf: "tree_wf L s" and cr: "child_rule net s" and cur: "cur < length (nodes s)"
    and ex: "expand net cur s = out"
  shows "child_rule net (tree_of out)"
  using ex
proof (cases rule: expand_cases)
  case (raise_compare e)
  then show ?thesis using child_rule_set_tag[OF cr wf] by simp
next
  case old
  then show ?thesis
    using child_rule_set_tag[OF child_rule_set_tag[OF cr wf] tree_wf_set_tag[OF wf]] by simp
next
  case (raise_enabled e)
  then show ?thesis using child_rule_set_tag[OF cr wf] by simp
next
  case dead_end
  then show ?thesis
    using child_rule_set_tag[OF child_rule_set_tag[OF cr wf] tree_wf_set_tag[OF wf]] by simp
next
  case (children ts)
  let ?s1 = "set_tag cur Processed s"
  let ?m0 = "marking (nodes s ! cur)"
  have fin: "fin_marking ?m0" by (rule expand_fin[OF wf cur children(1)])
  have start: "(tree_wf L ?s1 \<and> cur < length (nodes ?s1) \<and> marking (nodes ?s1 ! cur) = ?m0)
      \<and> child_rule net ?s1"
    using wf cur child_rule_set_tag[OF cr wf] by (simp add: tree_wf_set_tag)
  have "(tree_wf L (tree_of out) \<and> cur < length (nodes (tree_of out)) \<and> marking (nodes (tree_of out) ! cur) = ?m0)
      \<and> child_rule net (tree_of out)"
    by (rule add_children_invariant[where P = "\<lambda>s. (tree_wf L s \<and> cur < length (nodes s) \<and> marking (nodes s ! cur) = ?m0) \<and> child_rule net s",
          OF children(4)[symmetric] start])
       (rule expanding_rule_step[OF _ fin])
  then show ?thesis by simp
qed

lemma build_loop_child_rule:
  assumes "build_loop fuel net s = Some out" and "tree_wf L s \<and> child_rule net s"
  shows "tree_wf L (tree_of out) \<and> child_rule net (tree_of out)"
  using assms
proof (rule build_loop_invariant)
  fix s cur rest out'
  assume inv: "tree_wf L s \<and> child_rule net s" and q: "new_nodes s = cur # rest"
    and ex: "expand net cur (s\<lparr>new_nodes := rest\<rparr>) = out'"
  from inv have wf: "tree_wf L s" and cr: "child_rule net s" by simp_all
  from tree_wf_queue[OF wf q] have wf': "tree_wf L (s\<lparr>new_nodes := rest\<rparr>)"
    and c: "cur < length (nodes (s\<lparr>new_nodes := rest\<rparr>))" by simp_all
  from expand_tree_wf[OF wf' c ex] expand_child_rule[OF wf' child_rule_queue[OF cr] c ex]
  show "tree_wf L (tree_of out') \<and> child_rule net (tree_of out')" by simp
qed

subsection \<open>Firing in closed form\<close>

lemma index_of_member:
  "p \<in> set ps \<Longrightarrow> \<exists>i. index_of ps p = Inr i \<and> i < length ps \<and> ps ! i = p"
proof (induction ps)
  case Nil
  then show ?case by simp
next
  case (Cons q qs)
  show ?case
  proof (cases "q = p")
    case True
    then show ?thesis by simp
  next
    case False
    with Cons.prems have "p \<in> set qs" by simp
    from Cons.IH[OF this] obtain i where "index_of qs p = Inr i" "i < length qs" "qs ! i = p" by blast
    with False show ?thesis by simp
  qed
qed









lemma fin_marking_nth: "fin_marking m \<Longrightarrow> i < length m \<Longrightarrow> m ! i \<noteq> Omega"
  unfolding fin_marking_def by (metis nth_mem)





subsection \<open>The firings of a build\<close>



subsection \<open>The copying functions on a store\<close>

lemma remove_tokens_at_spec:
  assumes "a < length h" and "remove_tokens_at ps ws h a = (h', res)"
  shows "length h' = length h \<and> (\<forall>b<length h. b \<noteq> a \<longrightarrow> h' ! b = h ! b) \<and>
         (case remove_tokens ps ws (h ! a) of
            Inl e \<Rightarrow> res = Inl e
          | Inr r \<Rightarrow> res = Inr () \<and> h' ! a = r)"
  using assms
proof (induction ws arbitrary: h)
  case Nil
  then show ?case by simp
next
  case (Cons pw ws)
  obtain p w where pw: "pw = (p, w)" by (cases pw)
  show ?case
  proof (cases "index_of ps p")
    case (Inl e)
    with Cons.prems show ?thesis by (simp add: pw)
  next
    case (Inr idx)
    show ?thesis
    proof (cases "idx < length (h ! a)")
      case True
      show ?thesis
      proof (cases "sub_weight (h ! a ! idx) w")
        case (Inl e)
        with Cons.prems \<open>index_of ps p = Inr idx\<close> True show ?thesis by (simp add: pw)
      next
        case (Inr v)
        let ?h1 = "h[a := (h ! a)[idx := v]]"
        from Cons.prems(2) \<open>index_of ps p = Inr idx\<close> True Inr
        have r: "remove_tokens_at ps ws ?h1 a = (h', res)" by (simp add: pw)
        have a1: "a < length ?h1" using Cons.prems(1) by simp
        have c: "?h1 ! a = (h ! a)[idx := v]" using Cons.prems(1) by simp
        from Cons.IH[OF a1 r] c \<open>index_of ps p = Inr idx\<close> True Inr
        show ?thesis by (simp add: pw)
      qed
    next
      case False
      with Inr Cons.prems show ?thesis by (simp add: pw)
    qed
  qed
qed

lemma add_tokens_at_spec:
  assumes "a < length h" and "add_tokens_at ps ws h a = (h', res)"
  shows "length h' = length h \<and> (\<forall>b<length h. b \<noteq> a \<longrightarrow> h' ! b = h ! b) \<and>
         (case add_tokens ps ws (h ! a) of
            Inl e \<Rightarrow> res = Inl e
          | Inr r \<Rightarrow> res = Inr () \<and> h' ! a = r)"
  using assms
proof (induction ws arbitrary: h)
  case Nil
  then show ?case by simp
next
  case (Cons pw ws)
  obtain p w where pw: "pw = (p, w)" by (cases pw)
  show ?case
  proof (cases "index_of ps p")
    case (Inl e)
    with Cons.prems show ?thesis by (simp add: pw)
  next
    case (Inr idx)
    show ?thesis
    proof (cases "idx < length (h ! a)")
      case True
      show ?thesis
      proof (cases "add_weight (h ! a ! idx) w")
        case (Inl e)
        with Cons.prems \<open>index_of ps p = Inr idx\<close> True show ?thesis by (simp add: pw)
      next
        case (Inr v)
        let ?h1 = "h[a := (h ! a)[idx := v]]"
        from Cons.prems(2) \<open>index_of ps p = Inr idx\<close> True Inr
        have r: "add_tokens_at ps ws ?h1 a = (h', res)" by (simp add: pw)
        have a1: "a < length ?h1" using Cons.prems(1) by simp
        have c: "?h1 ! a = (h ! a)[idx := v]" using Cons.prems(1) by simp
        from Cons.IH[OF a1 r] c \<open>index_of ps p = Inr idx\<close> True Inr
        show ?thesis by (simp add: pw)
      qed
    next
      case False
      with Inr Cons.prems show ?thesis by (simp add: pw)
    qed
  qed
qed

lemma fire_transition_store_spec:
  assumes a: "a < length h" and f: "fire_transition_store net t h a = (h', res)"
  shows "(\<forall>b<length h. h' ! b = h ! b) \<and>
         (case fire_transition net t (h ! a) of
            Inl e \<Rightarrow> res = Inl e
          | Inr r \<Rightarrow> res = Inr (length h) \<and> length h' = Suc (length h) \<and> h' ! length h = r)"
proof (cases "is_enabled net t (h ! a)")
  case (Inl e)
  with f show ?thesis by (simp add: fire_transition_store_def fire_transition_def)
next
  case (Inr en)
  show ?thesis
  proof (cases en)
    case False
    with Inr f show ?thesis by (simp add: fire_transition_store_def fire_transition_def)
  next
    case True
    note en = Inr[unfolded eqTrueI[OF True]]
    let ?n = "length h"
    let ?h1 = "h @ [h ! a]"
    have n1: "?n < length ?h1" by simp
    have c1: "?h1 ! ?n = h ! a" by simp
    have old1: "\<And>b. b < ?n \<Longrightarrow> ?h1 ! b = h ! b" by (simp add: nth_append)
    show ?thesis
    proof (cases "map_of (transitions net) t")
      case None
      with en f have "h' = ?h1" "res = Inl KeyError"
        by (simp_all add: fire_transition_store_def Let_def)
      with en None old1 show ?thesis by (simp add: fire_transition_def)
    next
      case (Some tr)
      obtain h2 res2 where r: "remove_tokens_at (places net) (t_in tr) ?h1 ?n = (h2, res2)"
        by (cases "remove_tokens_at (places net) (t_in tr) ?h1 ?n")
      from remove_tokens_at_spec[OF n1 r] c1
      have l2: "length h2 = Suc ?n" and old2: "\<And>b. b < ?n \<Longrightarrow> h2 ! b = ?h1 ! b"
        and res2: "case remove_tokens (places net) (t_in tr) (h ! a) of
            Inl e \<Rightarrow> res2 = Inl e | Inr r \<Rightarrow> res2 = Inr () \<and> h2 ! ?n = r"
        by simp_all
      show ?thesis
      proof (cases "remove_tokens (places net) (t_in tr) (h ! a)")
        case (Inl e)
        with res2 have "res2 = Inl e" by simp
        with en Some r f have "h' = h2" "res = Inl e"
          by (simp_all add: fire_transition_store_def Let_def)
        with en Some Inl old1 old2 l2 show ?thesis by (simp add: fire_transition_def)
      next
        case (Inr m1)
        with res2 have u: "res2 = Inr ()" and c2: "h2 ! ?n = m1" by simp_all
        have n2: "?n < length h2" using l2 by simp
        obtain h3 res3 where ad: "add_tokens_at (places net) (t_out tr) h2 ?n = (h3, res3)"
          by (cases "add_tokens_at (places net) (t_out tr) h2 ?n")
        from add_tokens_at_spec[OF n2 ad] c2 l2
        have l3: "length h3 = Suc ?n" and old3: "\<And>b. b < ?n \<Longrightarrow> h3 ! b = h2 ! b"
          and res3: "case add_tokens (places net) (t_out tr) m1 of
              Inl e \<Rightarrow> res3 = Inl e | Inr r \<Rightarrow> res3 = Inr () \<and> h3 ! ?n = r"
          by simp_all
        have old: "\<And>b. b < ?n \<Longrightarrow> h3 ! b = h ! b" using old1 old2 old3 by simp
        show ?thesis
        proof (cases "add_tokens (places net) (t_out tr) m1")
          case (Inl e)
          with res3 have "res3 = Inl e" by simp
          with en Some r u ad f have "h' = h3" "res = Inl e"
            by (simp_all add: fire_transition_store_def Let_def)
          with en Some \<open>remove_tokens (places net) (t_in tr) (h ! a) = Inr m1\<close> Inl old l3
          show ?thesis by (simp add: fire_transition_def)
        next
          case (Inr m2)
          with res3 have "res3 = Inr ()" and c3: "h3 ! ?n = m2" by simp_all
          with en Some r u ad f have "h' = h3" "res = Inr ?n"
            by (simp_all add: fire_transition_store_def Let_def)
          with en Some \<open>remove_tokens (places net) (t_in tr) (h ! a) = Inr m1\<close> Inr old l3 c3
          show ?thesis by (simp add: fire_transition_def)
        qed
      qed
    qed
  qed
qed

lemma apply_omega_from_frame:
  assumes "r < length h" and "apply_omega_from n i h r anc = (h', res)"
  shows "length h' = length h \<and> (\<forall>b<length h. b \<noteq> r \<longrightarrow> h' ! b = h ! b)"
  using assms
proof (induction n arbitrary: i h)
  case 0
  then show ?case by simp
next
  case (Suc n)
  let ?h1 = "h[r := (h ! r)[i := Omega]]"
  have r1: "r < length ?h1" using Suc.prems(1) by simp
  have f1: "length ?h1 = length h \<and> (\<forall>b<length h. b \<noteq> r \<longrightarrow> ?h1 ! b = h ! b)"
    using Suc.prems(1) by simp
  from Suc.prems(2) consider
      (same) "apply_omega_from n (Suc i) h r anc = (h', res)"
    | (upd) "apply_omega_from n (Suc i) ?h1 r anc = (h', res)"
    | (stop) "h' = h"
    by (auto split: mval.splits if_splits)
  then show ?case
  proof cases
    case same
    from Suc.IH[OF Suc.prems(1) same] show ?thesis .
  next
    case upd
    from Suc.IH[OF r1 upd] f1 show ?thesis by simp
  next
    case stop
    then show ?thesis by simp
  qed
qed

lemma apply_omega_from_refines:
  assumes "r < length h" and "anc \<noteq> r" and "i + n = length (h ! r)"
  shows "case apply_omega (drop i (h ! r)) (drop i (h ! anc)) of
           Inl e \<Rightarrow> (\<exists>h'. apply_omega_from n i h r anc = (h', Inl e))
         | Inr res \<Rightarrow> (\<exists>h'. apply_omega_from n i h r anc = (h', Inr ()) \<and>
                          h' ! r = take i (h ! r) @ res)"
  using assms
proof (induction n arbitrary: i h)
  case 0
  then show ?case by simp
next
  case (Suc n)
  from Suc.prems(3) have i: "i < length (h ! r)" by simp
  have dr: "drop i (h ! r) = (h ! r ! i) # drop (Suc i) (h ! r)"
    by (rule Cons_nth_drop_Suc[OF i, symmetric])
  have tk: "take (Suc i) (h ! r) = take i (h ! r) @ [h ! r ! i]"
    by (rule take_Suc_conv_app_nth[OF i])
  from Suc.prems(3) have sn: "Suc i + n = length (h ! r)" by simp
  note ih = Suc.IH[OF Suc.prems(1,2) sn]
  show ?case
  proof (cases "h ! r ! i")
    case Omega
    have d1: "drop 1 (drop i (h ! anc)) = drop (Suc i) (h ! anc)" by simp
    from ih show ?thesis
      by (simp add: dr Omega tk d1 split: sum.splits)
  next
    case (Fin a)
    show ?thesis
    proof (cases "i < length (h ! anc)")
      case False
      then have "drop i (h ! anc) = []" by simp
      with Fin False show ?thesis by (simp add: dr)
    next
      case True
      have da: "drop i (h ! anc) = (h ! anc ! i) # drop (Suc i) (h ! anc)"
        by (rule Cons_nth_drop_Suc[OF True, symmetric])
      show ?thesis
      proof (cases "h ! anc ! i")
        case Omega
        from ih show ?thesis
          by (simp add: dr da Fin Omega True tk split: sum.splits)
      next
        case (Fin b)
        show ?thesis
        proof (cases "b < a")
          case False
          from ih show ?thesis
            by (simp add: dr da \<open>h ! r ! i = Fin a\<close> Fin True False tk split: sum.splits)
        next
          case gt: True
          let ?h1 = "h[r := (h ! r)[i := Omega]]"
          have r1: "r < length ?h1" using Suc.prems(1) by simp
          have hr: "?h1 ! r = (h ! r)[i := Omega]" using Suc.prems(1) by simp
          have ha: "?h1 ! anc = h ! anc" using Suc.prems(2) by simp
          have s1: "Suc i + n = length (?h1 ! r)" using sn by (simp add: hr)
          have d1: "drop (Suc i) (?h1 ! r) = drop (Suc i) (h ! r)" by (simp add: hr)
          have t1: "take (Suc i) (?h1 ! r) = take i (h ! r) @ [Omega]"
            using i by (simp add: hr take_Suc_conv_app_nth)
          from Suc.IH[OF r1 Suc.prems(2) s1] show ?thesis
            by (simp add: dr da \<open>h ! r ! i = Fin a\<close> Fin True gt d1 t1 ha split: sum.splits)
        qed
      qed
    qed
  qed
qed

lemma apply_omega_store_spec:
  assumes p: "p < length h" and c: "c < length h" and f: "apply_omega_store h p c = (h', res)"
  shows "(\<forall>b<length h. h' ! b = h ! b) \<and>
         (case apply_omega (h ! p) (h ! c) of
            Inl e \<Rightarrow> res = Inl e
          | Inr r \<Rightarrow> res = Inr (length h) \<and> length h' = Suc (length h) \<and> h' ! length h = r)"
proof -
  let ?n = "length h"
  let ?h1 = "h @ [h ! p]"
  have r1: "?n < length ?h1" and ne: "c \<noteq> ?n" using c by simp_all
  have hr: "?h1 ! ?n = h ! p" by simp
  have hc: "?h1 ! c = h ! c" using c by (simp add: nth_append)
  have s1: "0 + length (h ! p) = length (?h1 ! ?n)" by simp
  obtain h2 res2 where run: "apply_omega_from (length (h ! p)) 0 ?h1 ?n c = (h2, res2)"
    by (cases "apply_omega_from (length (h ! p)) 0 ?h1 ?n c")
  from apply_omega_from_frame[OF r1 run]
  have l2: "length h2 = Suc ?n" and old: "\<And>b. b < ?n \<Longrightarrow> h2 ! b = ?h1 ! b" by simp_all
  have frame: "\<forall>b<?n. h2 ! b = h ! b" using old by (simp add: nth_append)
  from apply_omega_from_refines[OF r1 ne s1] run
  have ref: "case apply_omega (h ! p) (h ! c) of
           Inl e \<Rightarrow> res2 = Inl e
         | Inr r \<Rightarrow> res2 = Inr () \<and> h2 ! ?n = r"
    by (auto simp: hc split: sum.splits)
  show ?thesis
  proof (cases "apply_omega (h ! p) (h ! c)")
    case (Inl e)
    with ref have "res2 = Inl e" by simp
    with run f have "h' = h2" "res = Inl e" by (simp_all add: apply_omega_store_def Let_def)
    with Inl frame show ?thesis by simp
  next
    case (Inr r)
    with ref have "res2 = Inr ()" and "h2 ! ?n = r" by simp_all
    with run f have "h' = h2" "res = Inr ?n" by (simp_all add: apply_omega_store_def Let_def)
    with Inr frame l2 \<open>h2 ! ?n = r\<close> show ?thesis by simp
  qed
qed

subsection \<open>When the two functions return\<close>

lemma enough_tokens_indexed:
  "enough_tokens ps ws m = Inr True \<Longrightarrow>
   \<forall>pw\<in>set ws. \<exists>i. index_of ps (fst pw) = Inr i \<and> i < length m"
proof (induction ws)
  case Nil
  then show ?case by simp
next
  case (Cons pw ws)
  obtain p w where pw: "pw = (p, w)" by (cases pw)
  from Cons.prems pw obtain i where i: "index_of ps p = Inr i" "i < length m"
    and rest: "enough_tokens ps ws m = Inr True"
    by (auto split: sum.splits if_splits)
  from Cons.IH[OF rest] i pw show ?case by simp
qed

lemma sub_weight_returns:
  "x \<noteq> Omega \<or> \<not> float_overflow w \<Longrightarrow> \<exists>v. sub_weight x w = Inr v \<and> (x \<noteq> Omega \<longrightarrow> v \<noteq> Omega)"
  by (cases x) auto

lemma add_weight_returns:
  "x \<noteq> Omega \<or> \<not> float_overflow w \<Longrightarrow> \<exists>v. add_weight x w = Inr v \<and> (x \<noteq> Omega \<longrightarrow> v \<noteq> Omega)"
  by (cases x) auto

lemma remove_tokens_returns:
  assumes "\<forall>pw\<in>set ws. \<exists>i. index_of ps (fst pw) = Inr i \<and> i < length m"
    and "fin_marking m \<or> float_weights ws"
  shows "\<exists>r. remove_tokens ps ws m = Inr r"
  using assms
proof (induction ws arbitrary: m)
  case Nil
  then show ?case by simp
next
  case (Cons pw ws)
  obtain p w where pw: "pw = (p, w)" by (cases pw)
  from Cons.prems(1) pw obtain i where i: "index_of ps p = Inr i" "i < length m" by auto
  from Cons.prems(2) pw i(2) have "m ! i \<noteq> Omega \<or> \<not> float_overflow w"
    by (auto simp: float_weights_def dest: fin_marking_nth)
  from sub_weight_returns[OF this] obtain v where v: "sub_weight (m ! i) w = Inr v"
    and vf: "m ! i \<noteq> Omega \<Longrightarrow> v \<noteq> Omega" by blast
  have idx: "\<forall>pw\<in>set ws. \<exists>j. index_of ps (fst pw) = Inr j \<and> j < length (m[i := v])"
    using Cons.prems(1) by simp
  have ok: "fin_marking (m[i := v]) \<or> float_weights ws"
  proof (cases "fin_marking m")
    case True
    from fin_marking_nth[OF True i(2)] vf have "v \<noteq> Omega" by simp
    from fin_marking_update[OF True this] show ?thesis by simp
  next
    case False
    with Cons.prems(2) show ?thesis by (simp add: float_weights_def)
  qed
  from Cons.IH[OF idx ok] i v show ?case by (simp add: pw)
qed

lemma add_tokens_returns:
  assumes "\<forall>pw\<in>set ws. \<exists>i. index_of ps (fst pw) = Inr i \<and> i < length m"
    and "fin_marking m \<or> float_weights ws"
  shows "\<exists>r. add_tokens ps ws m = Inr r"
  using assms
proof (induction ws arbitrary: m)
  case Nil
  then show ?case by simp
next
  case (Cons pw ws)
  obtain p w where pw: "pw = (p, w)" by (cases pw)
  from Cons.prems(1) pw obtain i where i: "index_of ps p = Inr i" "i < length m" by auto
  from Cons.prems(2) pw i(2) have "m ! i \<noteq> Omega \<or> \<not> float_overflow w"
    by (auto simp: float_weights_def dest: fin_marking_nth)
  from add_weight_returns[OF this] obtain v where v: "add_weight (m ! i) w = Inr v"
    and vf: "m ! i \<noteq> Omega \<Longrightarrow> v \<noteq> Omega" by blast
  have idx: "\<forall>pw\<in>set ws. \<exists>j. index_of ps (fst pw) = Inr j \<and> j < length (m[i := v])"
    using Cons.prems(1) by simp
  have ok: "fin_marking (m[i := v]) \<or> float_weights ws"
  proof (cases "fin_marking m")
    case True
    from fin_marking_nth[OF True i(2)] vf have "v \<noteq> Omega" by simp
    from fin_marking_update[OF True this] show ?thesis by simp
  next
    case False
    with Cons.prems(2) show ?thesis by (simp add: float_weights_def)
  qed
  from Cons.IH[OF idx ok] i v show ?case by (simp add: pw)
qed

lemma fire_transition_returns:
  assumes tr: "map_of (transitions net) t = Some tr"
    and en: "is_enabled net t m = Inr True"
    and len: "length m = length (places net)"
    and out: "fst ` set (t_out tr) \<subseteq> set (places net)"
    and fl: "fin_marking m \<or> float_weights (t_in tr) \<and> float_weights (t_out tr)"
  shows "\<exists>r. fire_transition net t m = Inr r"
proof -
  from en tr have "enough_tokens (places net) (t_in tr) m = Inr True" by (simp add: is_enabled_def)
  moreover from fl have "fin_marking m \<or> float_weights (t_in tr)" by blast
  ultimately obtain m1 where m1: "remove_tokens (places net) (t_in tr) m = Inr m1"
    using remove_tokens_returns[OF enough_tokens_indexed] by blast
  from remove_tokens_shape[OF m1] len have l1: "length m1 = length (places net)"
    and f1: "fin_marking m \<Longrightarrow> fin_marking m1" by simp_all
  have "\<forall>pw\<in>set (t_out tr). \<exists>i. index_of (places net) (fst pw) = Inr i \<and> i < length m1"
  proof
    fix pw assume "pw \<in> set (t_out tr)"
    with out have "fst pw \<in> set (places net)" by auto
    from index_of_member[OF this] l1
    show "\<exists>i. index_of (places net) (fst pw) = Inr i \<and> i < length m1" by auto
  qed
  moreover from fl f1 have "fin_marking m1 \<or> float_weights (t_out tr)" by blast
  ultimately obtain m2 where "add_tokens (places net) (t_out tr) m1 = Inr m2"
    using add_tokens_returns by blast
  with en tr m1 show ?thesis by (simp add: fire_transition_def)
qed

subsection \<open>A build on an object that holds nodes already\<close>

lemma shift_node_fields [simp]:
  "marking (shift_node d n) = marking n"
  "node_id (shift_node d n) = node_id n"
  "tag (shift_node d n) = tag n"
  "transition (shift_node d n) = transition n"
  "parent (shift_node d n) = map_option (\<lambda>p. d + p) (parent n)"
  "children (shift_node d n) = map (\<lambda>c. d + c) (children n)"
  "path_to_root (shift_node d n) = map (\<lambda>a. d + a) (path_to_root n)"
  by (simp_all add: shift_node_def)

lemma placed_after_fields [simp]:
  "nodes (placed_after old s) = nodes old @ map (shift_node (length (nodes old))) (nodes s)"
  "edges (placed_after old s) = edges old @ edges s"
  "root (placed_after old s) = map_option (\<lambda>p. length (nodes old) + p) (root s)"
  "new_nodes (placed_after old s) = map (\<lambda>c. length (nodes old) + c) (new_nodes s)"
  "node_counter (placed_after old s) = node_counter s"
  by (simp_all add: placed_after_def)

lemma placed_after_nth:
  "i < length (nodes s) \<Longrightarrow>
   nodes (placed_after old s) ! (length (nodes old) + i) = shift_node (length (nodes old)) (nodes s ! i)"
  by (simp add: nth_append)

lemma initial_tree_placed_after:
  "initial_tree net old = placed_after old (initial_tree net CoverabilityTree_init)"
  by (simp add: initial_tree_def CoverabilityTree_init_def placed_after_def shift_node_def Let_def)

lemma shift_node_0: "shift_node 0 n = n"
  by (simp add: shift_node_def option.map_ident)

lemma placed_after_empty:
  assumes "nodes old = []" and "edges old = []"
  shows "placed_after old s = s"
proof -
  have "map (shift_node 0) (nodes s) = nodes s" by (simp add: shift_node_0 map_idI)
  with assms show ?thesis by (cases s) (simp add: placed_after_def option.map_ident)
qed

lemma equals_ancestor_moved:
  "\<forall>a\<in>set as. marking (ns' ! f a) = marking (ns ! a) \<Longrightarrow>
   equals_ancestor ns' m (map f as) = equals_ancestor ns m as"
  by (induction as) (simp_all split: sum.splits prod.splits)

lemma omega_from_ancestors_moved:
  "\<forall>a\<in>set as. marking (ns' ! f a) = marking (ns ! a) \<Longrightarrow>
   omega_from_ancestors ns' m (map f as) = omega_from_ancestors ns m as"
  by (induction as) (simp_all split: sum.splits prod.splits)

lemma set_tag_placed_after:
  assumes "c < length (nodes s)"
  shows "set_tag (length (nodes old) + c) g (placed_after old s) = placed_after old (set_tag c g s)"
proof -
  let ?d = "length (nodes old)"
  have n: "(shift_node ?d (nodes s ! c))\<lparr>tag := g\<rparr> = shift_node ?d ((nodes s ! c)\<lparr>tag := g\<rparr>)"
    by (simp add: shift_node_def)
  have "(nodes old @ map (shift_node ?d) (nodes s))
          [?d + c := ((nodes old @ map (shift_node ?d) (nodes s)) ! (?d + c))\<lparr>tag := g\<rparr>] =
        nodes old @ map (shift_node ?d) ((nodes s)[c := (nodes s ! c)\<lparr>tag := g\<rparr>])"
    using assms by (simp add: list_update_append nth_append map_update n)
  then show ?thesis by (simp add: set_tag_def placed_after_def)
qed

lemma add_child_placed_after:
  assumes c: "c < length (nodes s)"
    and path: "\<forall>a\<in>set (path_to_root (nodes s ! c)). a < length (nodes s)"
  shows "add_child net (length (nodes old) + c) t (placed_after old s) =
           (case add_child net c t s of Inl e \<Rightarrow> Inl e | Inr s' \<Rightarrow> Inr (placed_after old s'))"
proof -
  let ?d = "length (nodes old)"
  let ?cur = "nodes s ! c"
  let ?ns = "nodes (placed_after old s)"
  have cur: "?ns ! (?d + c) = shift_node ?d ?cur" by (rule placed_after_nth[OF c])
  have anc: "\<forall>a\<in>set (path_to_root ?cur). marking (?ns ! (?d + a)) = marking (nodes s ! a)"
    using path by (simp add: nth_append)
  have om: "\<And>m. omega_from_ancestors ?ns m (map (\<lambda>a. ?d + a) (path_to_root ?cur)) =
                 omega_from_ancestors (nodes s) m (path_to_root ?cur)"
    by (rule omega_from_ancestors_moved[OF anc])
  show ?thesis
  proof (cases "fire_from_node net t (marking ?cur)")
    case (Inl e)
    then show ?thesis by (simp add: add_child_def Let_def cur del: placed_after_fields)
  next
    case (Inr m_prime)
    show ?thesis
    proof (cases "omega_from_ancestors (nodes s) m_prime (path_to_root ?cur)")
      case (Inl e)
      with Inr om[of m_prime] show ?thesis
        by (simp add: add_child_def Let_def cur del: placed_after_fields)
    next
      case (Inr m_acc)
      let ?new = "\<lparr>marking = m_acc, node_id = node_counter s, tag = New, parent = Some c,
                   children = [], transition = Some t,
                   path_to_root = path_to_root ?cur @ [length (nodes s)]\<rparr>"
      let ?s' = "s\<lparr>nodes := (nodes s)[c := ?cur\<lparr>children := children ?cur @ [length (nodes s)]\<rparr>] @ [?new],
                   new_nodes := new_nodes s @ [length (nodes s)],
                   edges := edges s @ [(node_id ?cur, node_counter s, t)],
                   node_counter := node_counter s + 1\<rparr>"
      have pure: "add_child net c t s = Inr ?s'"
        using \<open>fire_from_node net t (marking ?cur) = Inr m_prime\<close> Inr
        by (simp add: add_child_def Let_def)
      have n: "(shift_node ?d ?cur)\<lparr>children := map (\<lambda>c. ?d + c) (children ?cur) @ [?d + length (nodes s)]\<rparr> =
               shift_node ?d (?cur\<lparr>children := children ?cur @ [length (nodes s)]\<rparr>)"
        by (simp add: shift_node_def)
      have upd: "(nodes old @ map (shift_node ?d) (nodes s))
                   [?d + c := (shift_node ?d ?cur)\<lparr>children := map (\<lambda>c. ?d + c) (children ?cur) @ [?d + length (nodes s)]\<rparr>] =
                 nodes old @ map (shift_node ?d) ((nodes s)[c := ?cur\<lparr>children := children ?cur @ [length (nodes s)]\<rparr>])"
        unfolding n using c by (simp add: list_update_append map_update)
      have new: "\<lparr>marking = m_acc, node_id = node_counter s, tag = New, parent = Some (?d + c),
                  children = [], transition = Some t,
                  path_to_root = map (\<lambda>a. ?d + a) (path_to_root ?cur) @ [length ?ns]\<rparr> =
                 shift_node ?d ?new"
        by (simp add: shift_node_def)
      have moved: "add_child net (?d + c) t (placed_after old s) = Inr (placed_after old ?s')"
        using \<open>fire_from_node net t (marking ?cur) = Inr m_prime\<close> Inr om[of m_prime]
        unfolding add_child_def Let_def cur
        by (simp add: upd new placed_after_def del: placed_after_fields)
      with pure show ?thesis by simp
    qed
  qed
qed

lemma add_children_placed_after:
  assumes "c < length (nodes s)"
    and "\<forall>a\<in>set (path_to_root (nodes s ! c)). a < length (nodes s)"
  shows "add_children net (length (nodes old) + c) ts (placed_after old s) =
           map_outcome (placed_after old) (add_children net c ts s)"
  using assms
proof (induction ts arbitrary: s)
  case Nil
  then show ?case by simp
next
  case (Cons t ts)
  note step = add_child_placed_after[OF Cons.prems, of net old t]
  show ?case
  proof (cases "add_child net c t s")
    case (Inl e)
    with step show ?thesis by simp
  next
    case (Inr s')
    have c': "c < length (nodes s')" using add_child_length[OF Inr] Cons.prems(1) by simp
    have "path_to_root (nodes s' ! c) = path_to_root (nodes s ! c)"
      by (rule add_child_old_node(2)[OF Inr Cons.prems(1)])
    with Cons.prems(2) add_child_length[OF Inr]
    have p': "\<forall>a\<in>set (path_to_root (nodes s' ! c)). a < length (nodes s')" by auto
    from Cons.IH[OF c' p'] step Inr show ?thesis by simp
  qed
qed

lemma expand_placed_after:
  assumes c: "c < length (nodes s)"
    and path: "\<forall>a\<in>set (path_to_root (nodes s ! c)). a < length (nodes s)"
  shows "expand net (length (nodes old) + c) (placed_after old s) =
           map_outcome (placed_after old) (expand net c s)"
proof -
  let ?d = "length (nodes old)"
  let ?s1 = "set_tag c Processed s"
  let ?cur = "nodes ?s1 ! c"
  have s1: "set_tag (?d + c) Processed (placed_after old s) = placed_after old ?s1"
    by (rule set_tag_placed_after[OF c])
  have c1: "c < length (nodes ?s1)" using c by simp
  have p1: "\<forall>a\<in>set (path_to_root ?cur). a < length (nodes ?s1)" using path by simp
  have cur: "nodes (placed_after old ?s1) ! (?d + c) = shift_node ?d ?cur"
    by (rule placed_after_nth[OF c1])
  have anc: "\<forall>a\<in>set (butlast (path_to_root ?cur)).
      marking (nodes (placed_after old ?s1) ! (?d + a)) = marking (nodes ?s1 ! a)"
  proof
    fix a assume "a \<in> set (butlast (path_to_root ?cur))"
    then have "a \<in> set (path_to_root ?cur)" by (rule in_set_butlastD)
    with p1 have "a < length (nodes ?s1)" by blast
    from placed_after_nth[OF this, of old]
    show "marking (nodes (placed_after old ?s1) ! (?d + a)) = marking (nodes ?s1 ! a)" by simp
  qed
  have eq: "equals_ancestor (nodes (placed_after old ?s1)) (marking ?cur)
              (butlast (map (\<lambda>a. ?d + a) (path_to_root ?cur))) =
            equals_ancestor (nodes ?s1) (marking ?cur) (butlast (path_to_root ?cur))"
    unfolding map_butlast[symmetric] by (rule equals_ancestor_moved[OF anc])
  have old: "set_tag (?d + c) Old (placed_after old ?s1) = placed_after old (set_tag c Old ?s1)"
    by (rule set_tag_placed_after[OF c1])
  have dead: "set_tag (?d + c) DeadEnd (placed_after old ?s1) = placed_after old (set_tag c DeadEnd ?s1)"
    by (rule set_tag_placed_after[OF c1])
  have kids: "\<And>ts. add_children net (?d + c) ts (placed_after old ?s1) =
                     map_outcome (placed_after old) (add_children net c ts ?s1)"
    by (rule add_children_placed_after[OF c1 p1])
  have l: "expand net (?d + c) (placed_after old s) =
     (case equals_ancestor (nodes ?s1) (marking ?cur) (butlast (path_to_root ?cur)) of
           Inl e \<Rightarrow> Raised e (placed_after old ?s1)
         | Inr True \<Rightarrow> Done (placed_after old (set_tag c Old ?s1))
         | Inr False \<Rightarrow>
             (case get_enabled_transitions net (marking ?cur) of
                Inl e \<Rightarrow> Raised e (placed_after old ?s1)
              | Inr [] \<Rightarrow> Done (placed_after old (set_tag c DeadEnd ?s1))
              | Inr (t # ts) \<Rightarrow> map_outcome (placed_after old) (add_children net c (t # ts) ?s1)))"
    unfolding expand_def Let_def s1 cur shift_node_fields eq old dead kids ..
  have r: "map_outcome (placed_after old) (expand net c s) =
     (case equals_ancestor (nodes ?s1) (marking ?cur) (butlast (path_to_root ?cur)) of
           Inl e \<Rightarrow> Raised e (placed_after old ?s1)
         | Inr True \<Rightarrow> Done (placed_after old (set_tag c Old ?s1))
         | Inr False \<Rightarrow>
             (case get_enabled_transitions net (marking ?cur) of
                Inl e \<Rightarrow> Raised e (placed_after old ?s1)
              | Inr [] \<Rightarrow> Done (placed_after old (set_tag c DeadEnd ?s1))
              | Inr (t # ts) \<Rightarrow> map_outcome (placed_after old) (add_children net c (t # ts) ?s1)))"
    unfolding expand_def Let_def
    by (simp split: sum.splits bool.splits list.splits)
  from l r show ?thesis by simp
qed

lemma node_wf_path_range:
  assumes "node_wf L ns i" and "i < length ns"
  shows "\<forall>a\<in>set (path_to_root (ns ! i)). a < length ns"
proof -
  from assms(1) have ne: "path_to_root (ns ! i) \<noteq> []" and l: "last (path_to_root (ns ! i)) = i"
    and b: "\<forall>a\<in>set (butlast (path_to_root (ns ! i))). a < length ns"
    by (simp_all add: node_wf_def)
  have "path_to_root (ns ! i) = butlast (path_to_root (ns ! i)) @ [i]"
    using append_butlast_last_id[OF ne] l by simp
  then have "set (path_to_root (ns ! i)) = insert i (set (butlast (path_to_root (ns ! i))))"
    by (metis Un_insert_right append_Nil2 list.simps(15) set_append)
  with b assms(2) show ?thesis by auto
qed

lemma build_loop_placed_after:
  assumes "tree_wf L s"
  shows "build_loop fuel net (placed_after old s) =
           map_option (map_outcome (placed_after old)) (build_loop fuel net s)"
  using assms
proof (induction fuel arbitrary: s)
  case 0
  then show ?case by simp
next
  case (Suc k)
  let ?d = "length (nodes old)"
  show ?case
  proof (cases "new_nodes s")
    case Nil
    then show ?thesis by simp
  next
    case (Cons cur rest)
    from tree_wf_queue[OF Suc.prems Cons] have wf': "tree_wf L (s\<lparr>new_nodes := rest\<rparr>)"
      and c: "cur < length (nodes (s\<lparr>new_nodes := rest\<rparr>))" by simp_all
    from wf' c have "node_wf L (nodes (s\<lparr>new_nodes := rest\<rparr>)) cur" by (simp add: tree_wf_def)
    from node_wf_path_range[OF this c]
    have p: "\<forall>a\<in>set (path_to_root (nodes (s\<lparr>new_nodes := rest\<rparr>) ! cur)).
               a < length (nodes (s\<lparr>new_nodes := rest\<rparr>))" .
    have q: "(placed_after old s)\<lparr>new_nodes := map (\<lambda>c. ?d + c) rest\<rparr> =
             placed_after old (s\<lparr>new_nodes := rest\<rparr>)"
      by (simp add: placed_after_def)
    have ex: "expand net (?d + cur) ((placed_after old s)\<lparr>new_nodes := map (\<lambda>c. ?d + c) rest\<rparr>) =
              map_outcome (placed_after old) (expand net cur (s\<lparr>new_nodes := rest\<rparr>))"
      unfolding q using expand_placed_after[OF c p, of net old] by simp
    show ?thesis
    proof (cases "expand net cur (s\<lparr>new_nodes := rest\<rparr>)")
      case (Raised e s1)
      with ex Cons show ?thesis by simp
    next
      case (Done s1)
      from expand_tree_wf[OF wf' c Done] have "tree_wf L s1" by simp
      from Suc.IH[OF this] ex Done Cons show ?thesis by simp
    qed
  qed
qed

lemma build_tree_placed_after:
  "build_tree fuel net old =
     map_option (map_outcome (placed_after old)) (build_tree fuel net CoverabilityTree_init)"
  unfolding build_tree_def initial_tree_placed_after[of net old]
  by (rule build_loop_placed_after[OF tree_wf_initial])

subsection \<open>The exceptions that can end a build\<close>

lemma index_of_raises: "index_of ps p = Inl e \<Longrightarrow> e = NotInList"
  by (induction ps arbitrary: e) (auto split: sum.splits if_splits)

lemma enough_tokens_raises:
  "enough_tokens ps ws m = Inl e \<Longrightarrow> e = NotInList \<or> e = IndexError"
  by (induction ws) (auto split: sum.splits if_splits dest: index_of_raises)

lemma is_enabled_raises: "is_enabled net t m = Inl e \<Longrightarrow> e = NotInList \<or> e = IndexError"
  by (auto simp: is_enabled_def split: option.splits dest: enough_tokens_raises)

lemma enabled_among_raises:
  "enabled_among net ts m = Inl e \<Longrightarrow> e = NotInList \<or> e = IndexError"
  by (induction ts) (auto split: sum.splits dest: is_enabled_raises)

lemma get_enabled_transitions_raises:
  "get_enabled_transitions net m = Inl e \<Longrightarrow> e = NotInList \<or> e = IndexError"
  unfolding get_enabled_transitions_def by (rule enabled_among_raises)

lemma remove_tokens_raises:
  "remove_tokens ps ws m = Inl e \<Longrightarrow> fin_marking m \<Longrightarrow> e = NotInList \<or> e = IndexError"
proof (induction ws arbitrary: m)
  case Nil
  then show ?case by simp
next
  case (Cons pw ws)
  obtain p w where pw: "pw = (p, w)" by (cases pw)
  show ?case
  proof (cases "index_of ps p")
    case (Inl e')
    with Cons.prems(1) index_of_raises[OF Inl] show ?thesis by (simp add: pw)
  next
    case (Inr idx)
    show ?thesis
    proof (cases "idx < length m")
      case False
      with Inr Cons.prems(1) show ?thesis by (simp add: pw)
    next
      case True
      from sub_weight_fin[OF True Cons.prems(2), of w] obtain a where
        v: "sub_weight (m ! idx) w = Inr (Fin a)" by blast
      have f: "fin_marking (m[idx := Fin a])"
        by (rule fin_marking_update[OF Cons.prems(2)]) simp
      from Cons.prems(1) Inr True v have "remove_tokens ps ws (m[idx := Fin a]) = Inl e"
        by (simp add: pw)
      from Cons.IH[OF this f] show ?thesis .
    qed
  qed
qed

lemma add_tokens_raises:
  "add_tokens ps ws m = Inl e \<Longrightarrow> fin_marking m \<Longrightarrow> e = NotInList \<or> e = IndexError"
proof (induction ws arbitrary: m)
  case Nil
  then show ?case by simp
next
  case (Cons pw ws)
  obtain p w where pw: "pw = (p, w)" by (cases pw)
  show ?case
  proof (cases "index_of ps p")
    case (Inl e')
    with Cons.prems(1) index_of_raises[OF Inl] show ?thesis by (simp add: pw)
  next
    case (Inr idx)
    show ?thesis
    proof (cases "idx < length m")
      case False
      with Inr Cons.prems(1) show ?thesis by (simp add: pw)
    next
      case True
      from add_weight_fin[OF True Cons.prems(2), of w] obtain a where
        v: "add_weight (m ! idx) w = Inr (Fin a)" by blast
      have f: "fin_marking (m[idx := Fin a])"
        by (rule fin_marking_update[OF Cons.prems(2)]) simp
      from Cons.prems(1) Inr True v have "add_tokens ps ws (m[idx := Fin a]) = Inl e"
        by (simp add: pw)
      from Cons.IH[OF this f] show ?thesis .
    qed
  qed
qed

lemma fire_transition_raises:
  assumes "fire_transition net t m = Inl e" and fin: "fin_marking m"
    and en: "is_enabled net t m = Inr True"
  shows "e = NotInList \<or> e = IndexError"
proof -
  from en obtain tr where tr: "map_of (transitions net) t = Some tr"
    by (cases "map_of (transitions net) t") (simp_all add: is_enabled_def)
  show ?thesis
  proof (cases "remove_tokens (places net) (t_in tr) m")
    case (Inl e')
    with assms(1) en tr have "e' = e" by (simp add: fire_transition_def)
    with remove_tokens_raises[OF Inl fin] show ?thesis by simp
  next
    case (Inr m1)
    from remove_tokens_shape[OF Inr] fin have f1: "fin_marking m1" by simp
    from assms(1) en tr Inr have "add_tokens (places net) (t_out tr) m1 = Inl e"
      by (simp add: fire_transition_def)
    from add_tokens_raises[OF this f1] show ?thesis .
  qed
qed

lemma expand_raises:
  assumes wf: "tree_wf L s" and cur: "cur < length (nodes s)"
    and ex: "expand net cur s = Raised e s'"
  shows "e = NotInList \<or> e = IndexError"
  using ex
proof (cases rule: expand_cases)
  case (raise_compare e')
  then show ?thesis using equals_ancestor_error by fastforce
next
  case old
  then show ?thesis by simp
next
  case (raise_enabled e')
  then show ?thesis using get_enabled_transitions_raises by fastforce
next
  case dead_end
  then show ?thesis by simp
next
  case (children ts)
  let ?s1 = "set_tag cur Processed s"
  let ?m0 = "marking (nodes s ! cur)"
  have fin: "fin_marking ?m0" by (rule expand_fin[OF wf cur children(1)])
  have start: "tree_wf L ?s1 \<and> cur < length (nodes ?s1) \<and> marking (nodes ?s1 ! cur) = ?m0"
    using wf cur by (simp add: tree_wf_set_tag)
  have "\<exists>t\<in>set ts. (tree_wf L s' \<and> cur < length (nodes s') \<and> marking (nodes s' ! cur) = ?m0)
          \<and> add_child net cur t s' = Inl e"
    by (rule add_children_Raised[where P = "\<lambda>s. tree_wf L s \<and> cur < length (nodes s) \<and> marking (nodes s ! cur) = ?m0",
          OF children(4)[symmetric] start])
       (rule expanding_step[OF _ fin])
  then obtain t where t: "t \<in> set ts" and m: "marking (nodes s' ! cur) = ?m0"
    and ac: "add_child net cur t s' = Inl e" by blast
  from children(2) t have en: "is_enabled net t ?m0 = Inr True"
    unfolding get_enabled_transitions_def by (rule enabled_among_enabled)
  from add_child_Inl[OF ac] m have "fire_from_node net t ?m0 = Inl e \<or> e = IndexError" by simp
  then show ?thesis
  proof
    assume "fire_from_node net t ?m0 = Inl e"
    with fin have "fire_transition net t ?m0 = Inl e" by (simp add: fire_from_node_fin)
    from fire_transition_raises[OF this fin en] show ?thesis .
  next
    assume "e = IndexError"
    then show ?thesis by simp
  qed
qed

lemma build_loop_raises:
  assumes wf: "tree_wf L s" and b: "build_loop fuel net s = Some (Raised e t)"
  shows "e = NotInList \<or> e = IndexError"
proof -
  from b have "\<exists>s0 cur rest. tree_wf L s0 \<and> new_nodes s0 = cur # rest \<and>
      expand net cur (s0\<lparr>new_nodes := rest\<rparr>) = Raised e t"
    using wf
  proof (rule build_loop_Raised)
    fix s cur rest s'
    assume wf: "tree_wf L s" and q: "new_nodes s = cur # rest"
      and ex: "expand net cur (s\<lparr>new_nodes := rest\<rparr>) = Done s'"
    from tree_wf_queue[OF wf q] have "tree_wf L (s\<lparr>new_nodes := rest\<rparr>)"
      and "cur < length (nodes (s\<lparr>new_nodes := rest\<rparr>))" by simp_all
    from expand_tree_wf[OF this ex] show "tree_wf L s'" by simp
  qed
  then obtain s0 cur rest where wf0: "tree_wf L s0" and q: "new_nodes s0 = cur # rest"
    and ex: "expand net cur (s0\<lparr>new_nodes := rest\<rparr>) = Raised e t" by blast
  from tree_wf_queue[OF wf0 q] have "tree_wf L (s0\<lparr>new_nodes := rest\<rparr>)"
    and "cur < length (nodes (s0\<lparr>new_nodes := rest\<rparr>))" by simp_all
  from expand_raises[OF this ex] show ?thesis .
qed

subsection \<open>A build that does not end\<close>

lemma equals_ancestor_above:
  "\<forall>a\<in>set as. \<exists>u. marking (ns ! a) = [Fin u] \<and> v < u \<Longrightarrow>
   equals_ancestor ns [Fin v] as = Inr False"
  by (induction as) (auto simp: compare_markings_def)

lemma omega_from_ancestors_above:
  "\<forall>a\<in>set as. \<exists>u. marking (ns ! a) = [Fin u] \<and> w < u \<Longrightarrow>
   omega_from_ancestors ns [Fin w] as = Inr [Fin w]"
  by (induction as) (auto simp: compare_markings_def)

lemma fire_net_negative: "fire_from_node net_negative ''t1'' [Fin v] = Inr [Fin (v - 1)]"
  by (simp add: fire_from_node_def firing_marking_def restore_omega_def fire_transition_def
      is_enabled_def net_negative_def)

lemma enabled_net_negative: "get_enabled_transitions net_negative [Fin v] = Inr [''t1'']"
  by (simp add: get_enabled_transitions_def is_enabled_def net_negative_def)

lemma descending_step:
  assumes d: "descending s" and q: "new_nodes s = cur # rest"
  shows "\<exists>s'. expand net_negative cur (s\<lparr>new_nodes := rest\<rparr>) = Done s' \<and> descending s'"
proof -
  from d q obtain v where r: "rest = []" and c: "cur < length (nodes s)"
    and m: "marking (nodes s ! cur) = [Fin v]"
    and ne: "path_to_root (nodes s ! cur) \<noteq> []" and l: "last (path_to_root (nodes s ! cur)) = cur"
    and anc: "\<forall>a\<in>set (butlast (path_to_root (nodes s ! cur))).
           a < length (nodes s) \<and> (\<exists>u. marking (nodes s ! a) = [Fin u] \<and> v < u)"
    by (auto simp: descending_def)
  let ?s0 = "s\<lparr>new_nodes := rest\<rparr>"
  let ?s1 = "set_tag cur Processed ?s0"
  let ?path = "path_to_root (nodes s ! cur)"
  let ?n = "length (nodes s)"
  have path: "?path = butlast ?path @ [cur]"
    using append_butlast_last_id[OF ne] l by simp
  have eq: "equals_ancestor (nodes ?s1) (marking (nodes ?s0 ! cur)) (butlast (path_to_root (nodes ?s0 ! cur))) = Inr False"
    using anc by (simp add: m equals_ancestor_above)
  have en: "get_enabled_transitions net_negative (marking (nodes ?s0 ! cur)) = Inr [''t1'']"
    by (simp add: m enabled_net_negative)
  have all: "\<forall>a\<in>set ?path. a < ?n \<and> (\<exists>u. marking (nodes s ! a) = [Fin u] \<and> v - 1 < u)"
  proof
    fix a assume "a \<in> set ?path"
    then have "a \<in> set (butlast ?path) \<or> a = cur" by (subst (asm) path) auto
    then show "a < ?n \<and> (\<exists>u. marking (nodes s ! a) = [Fin u] \<and> v - 1 < u)"
      using anc c m by fastforce
  qed
  then have om: "omega_from_ancestors (nodes ?s1) [Fin (v - 1)] ?path = Inr [Fin (v - 1)]"
    by (intro omega_from_ancestors_above) simp
  obtain out where ex: "expand net_negative cur ?s0 = out" by simp
  from ex show ?thesis
  proof (cases rule: expand_cases)
    case (raise_compare e)
    with eq show ?thesis by simp
  next
    case old
    with eq show ?thesis by simp
  next
    case (raise_enabled e)
    with en show ?thesis by simp
  next
    case dead_end
    with en show ?thesis by simp
  next
    case (children ts)
    with en have ts: "ts = [''t1'']" by simp
    have "add_child net_negative cur ''t1'' ?s1 \<noteq> Inl e" for e
      by (simp add: add_child_def Let_def m fire_net_negative om)
    then obtain s' where ac: "add_child net_negative cur ''t1'' ?s1 = Inr s'"
      by (cases "add_child net_negative cur ''t1'' ?s1") auto
    with children(4) ts have out: "out = Done s'" by simp
    from ac obtain m_prime m_acc where
      f: "fire_from_node net_negative ''t1'' (marking (nodes ?s1 ! cur)) = Inr m_prime" and
      o: "omega_from_ancestors (nodes ?s1) m_prime (path_to_root (nodes ?s1 ! cur)) = Inr m_acc" and
      new: "nodes s' ! length (nodes ?s1) =
        \<lparr>marking = m_acc, node_id = node_counter ?s1, tag = New, parent = Some cur,
         children = [], transition = Some ''t1'',
         path_to_root = path_to_root (nodes ?s1 ! cur) @ [length (nodes ?s1)]\<rparr>"
      by (rule add_child_new_node)
    from f have mp: "m_prime = [Fin (v - 1)]" by (simp add: m fire_net_negative)
    from o om have ma: "m_acc = [Fin (v - 1)]" by (simp add: mp)
    have "new_nodes s' = new_nodes ?s1 @ [length (nodes ?s1)]" by (rule add_child_Inr[OF ac])
    then have qn: "new_nodes s' = [?n]" by (simp add: r)
    have len: "length (nodes s') = Suc ?n" using add_child_length[OF ac] by simp
    have nm: "marking (nodes s' ! ?n) = [Fin (v - 1)]"
      and np: "path_to_root (nodes s' ! ?n) = ?path @ [?n]"
      using new by (simp_all add: ma)
    have old_m: "\<And>a. a < ?n \<Longrightarrow> marking (nodes s' ! a) = marking (nodes s ! a)"
      using add_child_old_node(1)[OF ac] by simp
    have "descending s'"
      unfolding descending_def
    proof (intro exI conjI)
      show "new_nodes s' = [?n]" by (rule qn)
      show "?n < length (nodes s')" by (simp add: len)
      show "marking (nodes s' ! ?n) = [Fin (v - 1)]" by (rule nm)
      show "path_to_root (nodes s' ! ?n) \<noteq> []" by (simp add: np)
      show "last (path_to_root (nodes s' ! ?n)) = ?n" by (simp add: np)
      show "\<forall>a\<in>set (butlast (path_to_root (nodes s' ! ?n))).
           a < length (nodes s') \<and> (\<exists>u. marking (nodes s' ! a) = [Fin u] \<and> v - 1 < u)"
        using all old_m by (auto simp: np len)
    qed
    with out ex show ?thesis by simp
  qed
qed

lemma build_loop_descending: "descending s \<Longrightarrow> build_loop fuel net_negative s = None"
proof (induction fuel arbitrary: s)
  case 0
  then show ?case by (auto simp: descending_def)
next
  case (Suc k)
  from Suc.prems obtain cur where q: "new_nodes s = cur # []" by (auto simp: descending_def)
  from descending_step[OF Suc.prems q] obtain s' where
    ex: "expand net_negative cur (s\<lparr>new_nodes := []\<rparr>) = Done s'" and d: "descending s'" by blast
  from Suc.IH[OF d] q ex show ?case by simp
qed

lemma descending_initial: "descending (initial_tree net_negative CoverabilityTree_init)"
  by (simp add: descending_def initial_tree_init net_negative_def)

lemma build_tree_net_negative: "build_tree fuel net_negative CoverabilityTree_init = None"
  unfolding build_tree_def by (rule build_loop_descending[OF descending_initial])

section \<open>Properties\<close>

subsection \<open>The equal flag of compare_markings\<close>

text \<open>
  C1. The claim: for markings of one length, \<open>compare_markings\<close> reports equal exactly
  when every component matches (both \<open>\<omega>\<close>, or the same integer); in particular equal is
  false when a component of \<open>m1\<close> is \<open>\<omega>\<close> and that of \<open>m2\<close> is finite.
  The code: the branch for \<open>m1[i] == inf\<close> sets greater and goes on to the next index
  without clearing equal, so \<open>[\<omega>]\<close> against \<open>[5]\<close> comes out as equal.
\<close>

theorem compare_markings_omega_vs_finite:
  "compare_markings [Omega] [Fin 5] = Inr (True, True, True)"
  by (simp add: compare_markings_def)

subsection \<open>The scenario of a single growing place\<close>

text \<open>
  C2. The claim: for the net with the place P0, the marking [1] and t1 taking 1 from P0
  and giving 2 back, \<open>build_tree\<close> makes three nodes (root [1] processed, child
  \<open>[\<omega>]\<close> processed, grandchild \<open>[\<omega>]\<close> old), and the analysis reports P0 unbounded,
  no dead end and one old node.
  The code: the tree, built on a new object, ends with two nodes. The child \<open>[\<omega>]\<close> is
  compared with the root [1], \<open>compare_markings\<close> reports equal, and the child is tagged
  old and never expanded. The analysis of that tree does report P0 unbounded, no dead end
  and one old node.
\<close>

theorem build_tree_net_grow:
  "build_tree 2 net_grow CoverabilityTree_init =
     Some (Done
       \<lparr>nodes =
          [\<lparr>marking = [Fin 1], node_id = 0, tag = Processed, parent = None,
            children = [1], transition = None, path_to_root = [0]\<rparr>,
           \<lparr>marking = [Omega], node_id = 1, tag = Old, parent = Some 0,
            children = [], transition = Some ''t1'', path_to_root = [0, 1]\<rparr>],
        edges = [(0, 1, ''t1'')], root = Some 0, new_nodes = [], node_counter = 2\<rparr>)
   \<and> analyze_properties net_grow (tree_of (the (build_tree 2 net_grow CoverabilityTree_init))) =
       Inr \<lparr>bounded = False, unbounded_places = [''P0''], dead_end_nodes = [],
            old_nodes =
              [\<lparr>marking = [Omega], node_id = 1, tag = Old, parent = Some 0,
                children = [], transition = Some ''t1'', path_to_root = [0, 1]\<rparr>]\<rparr>"
  by code_simp

subsection \<open>Which nodes are tagged old\<close>

text \<open>
  C7. The claim: a node is tagged old only when its marking is exactly the marking of one
  of its proper ancestors, and never because of a node of another branch.
  The code: in the net with P0 and P1, the marking [1, 0] and t1 taking 1 from P0 and
  giving 1 to P0 and 1 to P1, the child of the root has the marking \<open>[1, \<omega>]\<close>. Its only
  proper ancestor is the root, with [1, 0], and the child is tagged old all the same.
\<close>

theorem build_tree_net_pump:
  "build_tree 2 net_pump CoverabilityTree_init =
     Some (Done
       \<lparr>nodes =
          [\<lparr>marking = [Fin 1, Fin 0], node_id = 0, tag = Processed, parent = None,
            children = [1], transition = None, path_to_root = [0]\<rparr>,
           \<lparr>marking = [Fin 1, Omega], node_id = 1, tag = Old, parent = Some 0,
            children = [], transition = Some ''t1'', path_to_root = [0, 1]\<rparr>],
        edges = [(0, 1, ''t1'')], root = Some 0, new_nodes = [], node_counter = 2\<rparr>)"
  by code_simp

subsection \<open>Firing only what is enabled\<close>

text \<open>
  C4. During \<open>build_tree\<close> every call of \<open>fire_transition\<close> is made with a transition
  that is enabled in the marking passed to it, so the builder never reaches the error
  that \<open>fire_transition\<close> raises for a transition that cannot be fired: no build, on any
  net, with any budget and on any tree object, new or used, ends with that error.
  The marking passed is the current one with 1000 written for \<open>\<omega>\<close>, while the enabled
  transitions are those of the current marking itself. The two agree because the builder
  expands a node only when its marking has no \<open>\<omega>\<close>: a marking that received \<open>\<omega>\<close> from
  \<open>apply_omega\<close> against an ancestor is reported equal to that ancestor by
  \<open>compare_markings\<close> and the node is tagged old (lemmas \<open>expand_fin\<close> and
  \<open>tree_wf_add_child\<close>).
\<close>

theorem build_tree_never_fires_disabled:
  "build_tree fuel net self \<noteq> Some (Raised CannotBeFired t)"
proof
  assume a: "build_tree fuel net self = Some (Raised CannotBeFired t)"
  then obtain r where r: "build_tree fuel net CoverabilityTree_init = Some r"
    and m: "map_outcome (placed_after self) r = Raised CannotBeFired t"
    unfolding build_tree_placed_after[of fuel net self] by auto
  from m obtain t' where "r = Raised CannotBeFired t'" by (cases r) simp_all
  with r show False
    unfolding build_tree_def using build_loop_not_fired[OF tree_wf_initial] by blast
qed

subsection \<open>Determinism\<close>

text \<open>
  C8. The claim: two builds from the same net produce identical trees. The code:
  \<open>build_tree\<close> sets \<open>self.root\<close> and its counter anew but appends to \<open>self.nodes\<close> and
  \<open>self.edges\<close>, which only the constructor empties. A second build on the object of a
  first one, for the net of the single growing place, leaves four nodes, with the ids
  0, 1, 0, 1, and two edges, where the first build left two nodes and one edge.
\<close>

theorem build_tree_twice_net_grow:
  "build_tree 2 net_grow CoverabilityTree_init =
     Some (Done
       \<lparr>nodes =
          [\<lparr>marking = [Fin 1], node_id = 0, tag = Processed, parent = None,
            children = [1], transition = None, path_to_root = [0]\<rparr>,
           \<lparr>marking = [Omega], node_id = 1, tag = Old, parent = Some 0,
            children = [], transition = Some ''t1'', path_to_root = [0, 1]\<rparr>],
        edges = [(0, 1, ''t1'')], root = Some 0, new_nodes = [], node_counter = 2\<rparr>)
   \<and> build_tree 2 net_grow
       \<lparr>nodes =
          [\<lparr>marking = [Fin 1], node_id = 0, tag = Processed, parent = None,
            children = [1], transition = None, path_to_root = [0]\<rparr>,
           \<lparr>marking = [Omega], node_id = 1, tag = Old, parent = Some 0,
            children = [], transition = Some ''t1'', path_to_root = [0, 1]\<rparr>],
        edges = [(0, 1, ''t1'')], root = Some 0, new_nodes = [], node_counter = 2\<rparr> =
     Some (Done
       \<lparr>nodes =
          [\<lparr>marking = [Fin 1], node_id = 0, tag = Processed, parent = None,
            children = [1], transition = None, path_to_root = [0]\<rparr>,
           \<lparr>marking = [Omega], node_id = 1, tag = Old, parent = Some 0,
            children = [], transition = Some ''t1'', path_to_root = [0, 1]\<rparr>,
           \<lparr>marking = [Fin 1], node_id = 0, tag = Processed, parent = None,
            children = [3], transition = None, path_to_root = [2]\<rparr>,
           \<lparr>marking = [Omega], node_id = 1, tag = Old, parent = Some 2,
            children = [], transition = Some ''t1'', path_to_root = [2, 3]\<rparr>],
        edges = [(0, 1, ''t1''), (0, 1, ''t1'')], root = Some 2, new_nodes = [],
        node_counter = 2\<rparr>)"
  by code_simp

text \<open>
  C8 as amended: what a build makes is determined by the net alone, and two builds on
  new objects give identical trees. For two builds of nets with the same places,
  transitions and initial marking that both end, on tree objects in any state and with
  any budgets, there is one outcome \<open>r\<close>, that of the build on a new object, in which the
  ids are the positions in creation order, such that each build ends as \<open>r\<close> does and
  leaves the tree of \<open>r\<close> placed after what its object held before: the old nodes and
  edges in front, untouched, then the nodes and edges of \<open>r\<close> with their markings, ids,
  tags, transitions and edges, and with the references between nodes counted from the
  first new node. On objects without nodes and edges, as the constructor leaves them,
  the two outcomes are equal.
\<close>

theorem build_tree_deterministic:
  assumes "places n1 = places n2" and "transitions n1 = transitions n2"
    and "initial_marking n1 = initial_marking n2"
    and "build_tree f1 n1 t1 = Some r1" and "build_tree f2 n2 t2 = Some r2"
  shows "(\<exists>r. build_tree f1 n1 CoverabilityTree_init = Some r \<and> ids_in_order (tree_of r) \<and>
              r1 = map_outcome (placed_after t1) r \<and> r2 = map_outcome (placed_after t2) r) \<and>
         (nodes t1 = [] \<and> edges t1 = [] \<and> nodes t2 = [] \<and> edges t2 = [] \<longrightarrow> r1 = r2)"
proof -
  from assms(1-3) have n: "n2 = n1" by simp
  from assms(4) obtain ra where ra: "build_tree f1 n1 CoverabilityTree_init = Some ra"
    and r1: "r1 = map_outcome (placed_after t1) ra"
    unfolding build_tree_placed_after[of f1 n1 t1] by auto
  from assms(5) obtain rb where rb: "build_tree f2 n1 CoverabilityTree_init = Some rb"
    and r2: "r2 = map_outcome (placed_after t2) rb"
    unfolding n build_tree_placed_after[of f2 n1 t2] by auto
  from ra rb have same: "rb = ra"
    unfolding build_tree_def using build_loop_fuel_irrelevant by blast
  have ids: "ids_in_order (tree_of ra)"
    using ra unfolding build_tree_def
    by (rule build_loop_ids_in_order) (rule ids_in_order_initial)
  have "r1 = r2" if "nodes t1 = [] \<and> edges t1 = [] \<and> nodes t2 = [] \<and> edges t2 = []"
  proof -
    from that have "placed_after t1 = (\<lambda>s. s)" and "placed_after t2 = (\<lambda>s. s)"
      by (auto simp: placed_after_empty)
    with r1 r2 same show ?thesis by (simp add: outcome.map_ident)
  qed
  with ra r1 r2 same ids show ?thesis by blast
qed

theorem build_tree_deterministic_witness:
  "build_tree 2 net_grow CoverabilityTree_init \<noteq> None \<and>
   build_tree 7 net_grow (tree_of (the (build_tree 2 net_grow CoverabilityTree_init))) \<noteq> None \<and>
   the (build_tree 7 net_grow (tree_of (the (build_tree 2 net_grow CoverabilityTree_init)))) =
     map_outcome (placed_after (tree_of (the (build_tree 2 net_grow CoverabilityTree_init))))
       (the (build_tree 2 net_grow CoverabilityTree_init)) \<and>
   ids_in_order (tree_of (the (build_tree 2 net_grow CoverabilityTree_init))) \<and>
   the (build_tree 2 net_grow CoverabilityTree_init) = the (build_tree 7 net_grow CoverabilityTree_init)"
proof -
  let ?new = "CoverabilityTree_init"
  have "build_tree 2 net_grow ?new \<noteq> None" by code_simp
  then obtain r1 where a: "build_tree 2 net_grow ?new = Some r1" by blast
  have "build_tree 7 net_grow (tree_of (the (build_tree 2 net_grow ?new))) \<noteq> None" by code_simp
  with a obtain r2 where b: "build_tree 7 net_grow (tree_of r1) = Some r2" by auto
  have "build_tree 7 net_grow ?new \<noteq> None" by code_simp
  then obtain r3 where c: "build_tree 7 net_grow ?new = Some r3" by blast
  have e: "nodes ?new = [] \<and> edges ?new = [] \<and> nodes ?new = [] \<and> edges ?new = []"
    by (simp add: CoverabilityTree_init_def)
  from build_tree_deterministic[OF refl refl refl a b] a
  have 1: "r2 = map_outcome (placed_after (tree_of r1)) r1" and 2: "ids_in_order (tree_of r1)"
    by auto
  from build_tree_deterministic[OF refl refl refl a c] e have 3: "r1 = r3" by blast
  from a b c 1 2 3 show ?thesis by simp
qed

subsection \<open>Invalid input\<close>

text \<open>
  C5. The claim: on a structurally invalid input the core reports one validation failure
  before any construction and produces no tree. The code has no validation: the
  constructor stores its arguments and \<open>build_tree\<close> starts at once. For the net with
  one place and an initial marking of two entries it builds a complete tree of two nodes.
\<close>

theorem build_tree_net_mismatch:
  "length (initial_marking net_mismatch) \<noteq> length (places net_mismatch) \<and>
   build_tree 2 net_mismatch CoverabilityTree_init =
     Some (Done
       \<lparr>nodes =
          [\<lparr>marking = [Fin 1, Fin 5], node_id = 0, tag = Processed, parent = None,
            children = [1], transition = None, path_to_root = [0]\<rparr>,
           \<lparr>marking = [Fin 0, Fin 5], node_id = 1, tag = DeadEnd, parent = Some 0,
            children = [], transition = Some ''t1'', path_to_root = [0, 1]\<rparr>],
        edges = [(0, 1, ''t1'')], root = Some 0, new_nodes = [], node_counter = 2\<rparr>)"
  by code_simp

text \<open>
  C5 as amended: the core validates nothing. On every input, invalid ones included,
  \<open>build_tree\<close> starts with the root node made from the initial marking as it is given.
  Whenever a build on a new object ends, by returning or by raising, the tree holds at
  least that root node, so that no input leaves no tree; and when it ends by raising,
  the exception is the ValueError of \<open>list.index\<close> for a name that is not in the place
  list or an IndexError for a marking that is too short, raised in the middle of the
  construction. A build need not end: on the net whose one transition gives -1 to its
  place the loop is still running after any number of iterations (lemma
  \<open>build_tree_net_negative\<close>).
\<close>

theorem build_tree_starts_unvalidated:
  assumes "build_tree fuel net CoverabilityTree_init = Some out"
  shows "nodes (tree_of out) \<noteq> [] \<and>
         marking (nodes (tree_of out) ! 0) = map Fin (initial_marking net) \<and>
         root (tree_of out) = Some 0 \<and>
         (\<forall>e s. out = Raised e s \<longrightarrow> e = NotInList \<or> e = IndexError)"
proof -
  have "root_kept net (tree_of out)"
    using assms unfolding build_tree_def
    by (rule build_loop_root_kept) (rule root_kept_initial)
  moreover have "e = NotInList \<or> e = IndexError" if "out = Raised e s" for e s
    using assms that unfolding build_tree_def
    using build_loop_raises[OF tree_wf_initial] by blast
  ultimately show ?thesis by (simp add: root_kept_def)
qed

theorem build_tree_starts_unvalidated_witness:
  "build_tree 2 net_unknown CoverabilityTree_init =
     Some (Raised NotInList
       \<lparr>nodes =
          [\<lparr>marking = [Fin 1], node_id = 0, tag = Processed, parent = None,
            children = [], transition = None, path_to_root = [0]\<rparr>],
        edges = [], root = Some 0, new_nodes = [], node_counter = 1\<rparr>) \<and>
   map Fin (initial_marking net_unknown) = [Fin 1]"
proof -
  have "build_tree 2 net_unknown CoverabilityTree_init \<noteq> None" by code_simp
  then obtain out where a: "build_tree 2 net_unknown CoverabilityTree_init = Some out" by blast
  have b: "build_tree 2 net_unknown CoverabilityTree_init =
     Some (Raised NotInList
       \<lparr>nodes =
          [\<lparr>marking = [Fin 1], node_id = 0, tag = Processed, parent = None,
            children = [], transition = None, path_to_root = [0]\<rparr>],
        edges = [], root = Some 0, new_nodes = [], node_counter = 1\<rparr>)" by code_simp
  have "map Fin (initial_marking net_unknown) = [Fin 1]" by (simp add: net_unknown_def)
  with build_tree_starts_unvalidated[OF a] a b show ?thesis by simp
qed

subsection \<open>Tags and children at the end\<close>

text \<open>
  C9. After \<open>build_tree\<close> has completed on a new object, every node is tagged processed,
  old or dead-end (none is left new), a node tagged old or dead-end has no children, and
  a node tagged processed has at least one child.
\<close>

theorem build_tree_final_tags:
  assumes "build_tree fuel net CoverabilityTree_init = Some (Done t)"
  shows "\<forall>n\<in>set (nodes t).
           (tag n = Processed \<or> tag n = Old \<or> tag n = DeadEnd) \<and>
           (tag n = Old \<or> tag n = DeadEnd \<longrightarrow> children n = []) \<and>
           (tag n = Processed \<longrightarrow> children n \<noteq> [])"
proof
  fix n assume "n \<in> set (nodes t)"
  then obtain i where i: "i < length (nodes t)" and n: "n = nodes t ! i"
    by (auto simp: in_set_conv_nth)
  from assms have "queue_inv t \<and> new_nodes t = []"
    unfolding build_tree_def by (rule build_loop_tags) (rule queue_inv_initial)
  with i have "tag (nodes t ! i) \<noteq> New"
    and "(children (nodes t ! i) \<noteq> []) = (tag (nodes t ! i) = Processed)"
    by (simp_all add: queue_inv_def)
  then show "(tag n = Processed \<or> tag n = Old \<or> tag n = DeadEnd) \<and>
           (tag n = Old \<or> tag n = DeadEnd \<longrightarrow> children n = []) \<and>
           (tag n = Processed \<longrightarrow> children n \<noteq> [])"
    unfolding n by (cases "tag (nodes t ! i)") auto
qed

theorem build_tree_final_tags_witness:
  "build_tree 2 net_pump CoverabilityTree_init \<noteq> None \<and>
   list_all (\<lambda>n. (tag n = Processed \<or> tag n = Old \<or> tag n = DeadEnd) \<and>
           (tag n = Old \<or> tag n = DeadEnd \<longrightarrow> children n = []) \<and>
           (tag n = Processed \<longrightarrow> children n \<noteq> []))
     (nodes (tree_of (the (build_tree 2 net_pump CoverabilityTree_init))))"
proof -
  have "build_tree 2 net_pump CoverabilityTree_init \<noteq> None \<and>
    (case the (build_tree 2 net_pump CoverabilityTree_init) of Done t \<Rightarrow> True | Raised e t \<Rightarrow> False)"
    by code_simp
  then obtain t where a: "build_tree 2 net_pump CoverabilityTree_init = Some (Done t)"
    by (cases "build_tree 2 net_pump CoverabilityTree_init";
        cases "the (build_tree 2 net_pump CoverabilityTree_init)") auto
  from build_tree_final_tags[OF a] a show ?thesis by (simp add: list_all_iff)
qed

subsection \<open>Acceleration against the first qualifying ancestor\<close>

text \<open>
  C6. For each successor marking fired from a node, the builder walks the path from the
  root to that node inclusive and accelerates against the first ancestor that the
  successor covers without being equal to it, and against no later one. In every tree
  the builder makes on a new object, whether it completes or raises, the marking of
  every child is the result of that first-match rule, with coverable, equal and
  accelerate as the specification defines them.
  The walk decides with the flags of \<open>compare_markings\<close>, whose equal flag is wrong for
  a successor that holds \<open>\<omega>\<close>; the successors of a build hold none (lemma
  \<open>fire_from_node_shape\<close>, with \<open>expand_fin\<close>), and there the flag is exact.
\<close>

theorem build_tree_first_match:
  assumes "build_tree fuel net CoverabilityTree_init = Some out"
  shows "child_rule net (tree_of out)"
proof -
  have "tree_wf (length (initial_marking net)) (initial_tree net CoverabilityTree_init) \<and>
        child_rule net (initial_tree net CoverabilityTree_init)"
    by (simp add: tree_wf_initial child_rule_initial)
  with assms show ?thesis
    unfolding build_tree_def using build_loop_child_rule by blast
qed

theorem build_tree_first_match_witness:
  "build_tree 3 net_choice CoverabilityTree_init \<noteq> None \<and>
   child_rule net_choice (tree_of (the (build_tree 3 net_choice CoverabilityTree_init))) \<and>
   map marking (nodes (tree_of (the (build_tree 3 net_choice CoverabilityTree_init)))) =
     [[Fin 1, Fin 0], [Fin 0, Fin 1], [Fin 1, Omega]]"
proof -
  have n: "build_tree 3 net_choice CoverabilityTree_init \<noteq> None" by code_simp
  then obtain out where a: "build_tree 3 net_choice CoverabilityTree_init = Some out" by blast
  have m: "map marking (nodes (tree_of (the (build_tree 3 net_choice CoverabilityTree_init)))) =
     [[Fin 1, Fin 0], [Fin 0, Fin 1], [Fin 1, Omega]]" by code_simp
  from build_tree_first_match[OF a] a m show ?thesis by simp
qed

subsection \<open>What the builder fires on\<close>



subsection \<open>The copies made by fire_transition and apply_omega\<close>

text \<open>
  C10. \<open>fire_transition\<close> and \<open>apply_omega\<close> do not change their arguments and return a
  new list. With the lists as objects in a store: whatever the call does, every object
  that existed before it holds afterwards what it held before; when the call returns,
  what it returns is an object that did not exist before, holding the marking that the
  function computes; and when it raises, it is with the exception of the function.
  \<open>fire_transition\<close> returns whenever the transition is enabled, the marking has one
  entry per place, the produce weights name places of the net and, if the marking
  holds \<open>\<omega>\<close>, the weights fit a float; \<open>apply_omega\<close> returns whenever its two
  arguments have one length.
\<close>

theorem copies_leave_arguments:
  assumes "a < length h" and "p < length h" and "c < length h"
  shows "(case fire_transition_store net t h a of
            (h', res) \<Rightarrow>
              (\<forall>b<length h. h' ! b = h ! b) \<and>
              (case fire_transition net t (h ! a) of
                 Inl e \<Rightarrow> res = Inl e
               | Inr m' \<Rightarrow> res = Inr (length h) \<and> length h' = Suc (length h) \<and> h' ! length h = m')) \<and>
         (case apply_omega_store h p c of
            (h', res) \<Rightarrow>
              (\<forall>b<length h. h' ! b = h ! b) \<and>
              (case apply_omega (h ! p) (h ! c) of
                 Inl e \<Rightarrow> res = Inl e
               | Inr m' \<Rightarrow> res = Inr (length h) \<and> length h' = Suc (length h) \<and> h' ! length h = m')) \<and>
         (map_of (transitions net) t = Some tr \<and> is_enabled net t (h ! a) = Inr True \<and>
          length (h ! a) = length (places net) \<and> fst ` set (t_out tr) \<subseteq> set (places net) \<and>
          (fin_marking (h ! a) \<or> float_weights (t_in tr) \<and> float_weights (t_out tr)) \<longrightarrow>
            (\<exists>m'. fire_transition net t (h ! a) = Inr m')) \<and>
         (length (h ! p) = length (h ! c) \<longrightarrow> (\<exists>m'. apply_omega (h ! p) (h ! c) = Inr m'))"
proof (intro conjI impI)
  obtain h' res where f: "fire_transition_store net t h a = (h', res)"
    by (cases "fire_transition_store net t h a")
  from fire_transition_store_spec[OF assms(1) f] f
  show "case fire_transition_store net t h a of
            (h', res) \<Rightarrow>
              (\<forall>b<length h. h' ! b = h ! b) \<and>
              (case fire_transition net t (h ! a) of
                 Inl e \<Rightarrow> res = Inl e
               | Inr m' \<Rightarrow> res = Inr (length h) \<and> length h' = Suc (length h) \<and> h' ! length h = m')"
    by simp
next
  obtain h' res where f: "apply_omega_store h p c = (h', res)"
    by (cases "apply_omega_store h p c")
  from apply_omega_store_spec[OF assms(2,3) f] f
  show "case apply_omega_store h p c of
            (h', res) \<Rightarrow>
              (\<forall>b<length h. h' ! b = h ! b) \<and>
              (case apply_omega (h ! p) (h ! c) of
                 Inl e \<Rightarrow> res = Inl e
               | Inr m' \<Rightarrow> res = Inr (length h) \<and> length h' = Suc (length h) \<and> h' ! length h = m')"
    by simp
next
  assume "map_of (transitions net) t = Some tr \<and> is_enabled net t (h ! a) = Inr True \<and>
          length (h ! a) = length (places net) \<and> fst ` set (t_out tr) \<subseteq> set (places net) \<and>
          (fin_marking (h ! a) \<or> float_weights (t_in tr) \<and> float_weights (t_out tr))"
  then show "\<exists>m'. fire_transition net t (h ! a) = Inr m'"
    using fire_transition_returns[of net t tr "h ! a"] by blast
next
  assume "length (h ! p) = length (h ! c)"
  then show "\<exists>m'. apply_omega (h ! p) (h ! c) = Inr m'"
    using apply_omega_accelerate by blast
qed

theorem copies_leave_arguments_witness:
  "fire_transition_store net_pump ''t1'' [[Fin 1, Fin 0], [Fin 2, Omega]] 1 =
     ([[Fin 1, Fin 0], [Fin 2, Omega], [Fin 2, Omega]], Inr 2) \<and>
   apply_omega_store [[Fin 1, Fin 0], [Fin 2, Omega]] 1 0 =
     ([[Fin 1, Fin 0], [Fin 2, Omega], [Omega, Omega]], Inr 2) \<and>
   fire_transition net_pump ''t1'' [Fin 2, Omega] = Inr [Fin 2, Omega] \<and>
   apply_omega [Fin 2, Omega] [Fin 1, Fin 0] = Inr [Omega, Omega]"
proof -
  let ?h = "[[Fin 1, Fin 0], [Fin 2, Omega]]"
  have 1: "1 < length ?h" and 0: "0 < length ?h" by simp_all
  have f: "fire_transition net_pump ''t1'' (?h ! 1) = Inr [Fin 2, Omega]"
    by (simp add: net_pump_def is_enabled_def fire_transition_def float_overflow_def)
  have o: "apply_omega (?h ! 1) (?h ! 0) = Inr [Omega, Omega]" by simp
  obtain h1 res1 where a: "fire_transition_store net_pump ''t1'' ?h 1 = (h1, res1)"
    by (cases "fire_transition_store net_pump ''t1'' ?h 1")
  obtain h2 res2 where b: "apply_omega_store ?h 1 0 = (h2, res2)"
    by (cases "apply_omega_store ?h 1 0")
  from copies_leave_arguments[OF 1 1 0, of net_pump "''t1''"] a b f o
  have r1: "res1 = Inr (Suc (Suc 0))" and l1: "length h1 = Suc (Suc (Suc 0))"
    and n1: "h1 ! Suc (Suc 0) = [Fin 2, Omega]"
    and k1: "\<forall>b<Suc (Suc 0). h1 ! b = ?h ! b"
    and r2: "res2 = Inr (Suc (Suc 0))" and l2: "length h2 = Suc (Suc (Suc 0))"
    and n2: "h2 ! Suc (Suc 0) = [Omega, Omega]"
    and k2: "\<forall>b<Suc (Suc 0). h2 ! b = ?h ! b"
    by simp_all
  have "h1 = [[Fin 1, Fin 0], [Fin 2, Omega], [Fin 2, Omega]]"
    using l1 n1 k1 by (intro nth_equalityI) (auto simp: less_Suc_eq)
  moreover have "h2 = [[Fin 1, Fin 0], [Fin 2, Omega], [Omega, Omega]]"
    using l2 n2 k2 by (intro nth_equalityI) (auto simp: less_Suc_eq)
  ultimately show ?thesis using a b r1 r2 f o by (simp add: numeral_2_eq_2)
qed

end
